theory Spec2Isabelle
  imports Main
begin

text \<open>
  A shallow embedding of the traversal engine of script modules: the slot cursor, the
  traversal policies, the slot iterator (\<open>slot_iterator_impl\<close>) and the slot list view
  (\<open>slot_list_impl\<close>), with the properties of the engine that its specification
  states. Every operation that can raise in the source returns a value of \<open>error + 'a\<close>
  here, \<open>Inl\<close> carrying the error.
\<close>

section \<open>The typed slot container\<close>

text \<open>
  The failures of the engine: a conversion of a value of the wrong kind, an access to a
  slot that does not exist, and the use of an iterator that has no current position.
\<close>

datatype error = TypeMismatch | OutOfRange | IteratorMisuse

text \<open>
  Modelled from the spec: the object behind a module and its class descriptor (the
  classes \<open>Object\<close> and \<open>ClassType\<close>), which the engine only calls. Following the
  interface of the typed slot container, a container is an ordered list of slots, and
  a slot has a name, a declared type, a parameter mark and a value; the container has
  one slot count. A declared type is reduced to the two questions the policies ask of
  it: whether it is a module type (\<open>is_module\<close>) and whether it is a subtype of the
  tensor type (\<open>isSubtypeOf(TensorType::get())\<close>); no type is both. A value is a tensor
  (an opaque handle), an object (a container) or any other value. The engine only reads
  the containers, through shared handles, so a container stands for its contents here:
  a finite tree, in which a shared container occurs once for every slot that holds it.
  The identity of handles (\<open>Module::operator==\<close>) is not part of the model.
\<close>

datatype type_desc = TensorType | ModuleType | OtherType

fun is_module :: "type_desc \<Rightarrow> bool" where
  "is_module ModuleType = True"
| "is_module _ = False"

fun isSubtypeOf_TensorType :: "type_desc \<Rightarrow> bool" where
  "isSubtypeOf_TensorType TensorType = True"
| "isSubtypeOf_TensorType _ = False"

datatype ivalue = Tensor nat | Object module | OtherValue nat
and module = Module (slots: "slot list")
and slot = Slot (slot_name: string) (slot_type: type_desc) (slot_is_parameter: bool)
  (slot_value: ivalue)

text \<open>
  Modelled from the spec: the accessors of the container, by slot index. The iterator
  passes its signed 64-bit cursor index; an index outside \<open>0 \<le> i < slot count\<close> (a
  negative index becomes a huge unsigned one) is refused by the accessor, which is the
  error \<open>OutOfRange\<close>.
\<close>

definition numAttributes :: "module \<Rightarrow> nat" where
  "numAttributes m = length (slots m)"

definition num_slots :: "module \<Rightarrow> nat" where
  "num_slots m = length (slots m)"

definition slot_at :: "module \<Rightarrow> int \<Rightarrow> error + slot" where
  "slot_at m i =
     (if 0 \<le> i \<and> i < int (length (slots m)) then Inr (slots m ! nat i) else Inl OutOfRange)"

definition getAttribute :: "module \<Rightarrow> int \<Rightarrow> error + type_desc" where
  "getAttribute m i = (case slot_at m i of Inl e \<Rightarrow> Inl e | Inr s \<Rightarrow> Inr (slot_type s))"

definition getAttributeName :: "module \<Rightarrow> int \<Rightarrow> error + string" where
  "getAttributeName m i = (case slot_at m i of Inl e \<Rightarrow> Inl e | Inr s \<Rightarrow> Inr (slot_name s))"

definition is_parameter :: "module \<Rightarrow> int \<Rightarrow> error + bool" where
  "is_parameter m i =
     (case slot_at m i of Inl e \<Rightarrow> Inl e | Inr s \<Rightarrow> Inr (slot_is_parameter s))"

definition getSlot :: "module \<Rightarrow> int \<Rightarrow> error + ivalue" where
  "getSlot m i = (case slot_at m i of Inl e \<Rightarrow> Inl e | Inr s \<Rightarrow> Inr (slot_value s))"

text \<open>
  Modelled from the spec: the conversions of a value. \<open>toTensor\<close> and \<open>toObject\<close>
  fail on a value of another kind (TypeMismatch during projection).
\<close>

fun isTensor :: "ivalue \<Rightarrow> bool" where
  "isTensor (Tensor t) = True"
| "isTensor _ = False"

fun toTensor :: "ivalue \<Rightarrow> error + nat" where
  "toTensor (Tensor t) = Inr t"
| "toTensor _ = Inl TypeMismatch"

fun toObject :: "ivalue \<Rightarrow> error + module" where
  "toObject (Object m) = Inr m"
| "toObject _ = Inl TypeMismatch"

definition toModule :: "ivalue \<Rightarrow> error + module" where
  "toModule v = toObject v"

section \<open>Cursors and traversal policies\<close>

text \<open>
  \<open>SlotCursor\<close>: a module and a slot offset, -1 denoting the module itself. The fields
  \<open>module_\<close> and \<open>i_\<close> of the source are \<open>sc_module\<close> and \<open>sc_i\<close>. The index is
  the source's \<open>int64_t\<close>, modelled as an unbounded integer: it only ever moves by
  increments between -1 and the slot count of a container.
\<close>

record SlotCursor =
  sc_module :: module
  sc_i :: int

text \<open>
  The policy is a template parameter in the source and an argument here. A named
  policy wraps any policy. \<open>out_value\<close> collects the \<open>value_type\<close>s of the policies:
  a module, a tensor, a raw value, and a \<open>Named\<close> pair of a name and a value.
\<close>

datatype policy = ModulePolicy | ParameterPolicy | BufferPolicy | AttributePolicy
  | NamedPolicy policy

datatype out_value = OutModule module | OutTensor nat | OutIValue ivalue
  | Named string out_value

fun all_slots :: "policy \<Rightarrow> bool" where
  "all_slots ModulePolicy = False"
| "all_slots ParameterPolicy = False"
| "all_slots BufferPolicy = False"
| "all_slots AttributePolicy = True"
| "all_slots (NamedPolicy P) = all_slots P"

text \<open>
  \<open>Policy::valid(typ, i, v)\<close>, for each policy, with the source's order of evaluation.
  The class descriptor \<open>typ\<close> of a container is the container itself, which carries
  the declarations of its slots.
\<close>

fun Policy_valid :: "policy \<Rightarrow> module \<Rightarrow> int \<Rightarrow> ivalue \<Rightarrow> error + bool" where
  "Policy_valid ModulePolicy typ i v =
     (case getAttribute typ i of Inl e \<Rightarrow> Inl e | Inr t \<Rightarrow> Inr (is_module t))"
| "Policy_valid ParameterPolicy typ i v =
     (case is_parameter typ i of Inl e \<Rightarrow> Inl e | Inr p \<Rightarrow> Inr (p \<and> isTensor v))"
| "Policy_valid BufferPolicy typ i v =
     (case getAttribute typ i of Inl e \<Rightarrow> Inl e
      | Inr t \<Rightarrow>
          if isSubtypeOf_TensorType t
          then (case is_parameter typ i of Inl e \<Rightarrow> Inl e | Inr p \<Rightarrow> Inr (\<not> p))
          else Inr False)"
| "Policy_valid AttributePolicy typ i v = Inr True"
| "Policy_valid (NamedPolicy P) typ i v = Policy_valid P typ i v"

text \<open>
  \<open>NamedPolicy::create\<close>: the name is empty for a single cursor with index -1, the
  name fragment of the cursor for any other single cursor, and otherwise the fragments
  of all cursors written to a stream in order, with a dot before every fragment but
  the first (\<open>name_loop\<close>, with the loop counter and the stream contents).
\<close>

definition nameFragment :: "SlotCursor \<Rightarrow> error + string" where
  "nameFragment f = getAttributeName (sc_module f) (sc_i f)"

fun name_loop :: "SlotCursor list \<Rightarrow> nat \<Rightarrow> string \<Rightarrow> error + string" where
  "name_loop [] i ss = Inr ss"
| "name_loop (c # cs) i ss =
     (case nameFragment c of
        Inl e \<Rightarrow> Inl e
      | Inr f \<Rightarrow> name_loop cs (Suc i) ((if 0 < i then ss @ ''.'' else ss) @ f))"

definition NamedPolicy_name :: "SlotCursor list \<Rightarrow> error + string" where
  "NamedPolicy_name cs =
     (if length cs = 1
      then (if sc_i (last cs) = - 1 then Inr [] else nameFragment (last cs))
      else name_loop cs 0 [])"

text \<open>
  \<open>Policy::create(cursors, v)\<close>, for each policy.
\<close>

fun create :: "policy \<Rightarrow> SlotCursor list \<Rightarrow> ivalue \<Rightarrow> error + out_value" where
  "create ModulePolicy cs v =
     (case toObject v of Inl e \<Rightarrow> Inl e | Inr m \<Rightarrow> Inr (OutModule m))"
| "create ParameterPolicy cs v =
     (case toTensor v of Inl e \<Rightarrow> Inl e | Inr t \<Rightarrow> Inr (OutTensor t))"
| "create BufferPolicy cs v =
     (case toTensor v of Inl e \<Rightarrow> Inl e | Inr t \<Rightarrow> Inr (OutTensor t))"
| "create AttributePolicy cs v = Inr (OutIValue v)"
| "create (NamedPolicy P) cs v =
     (case NamedPolicy_name cs of
        Inl e \<Rightarrow> Inl e
      | Inr name \<Rightarrow>
          (case create P cs v of Inl e \<Rightarrow> Inl e | Inr x \<Rightarrow> Inr (Named name x)))"

section \<open>The slot iterator\<close>

text \<open>
  The iterator holds the vector \<open>cursors_\<close> (here \<open>it_cursors\<close>, listed from its front
  to its back, so that the top of the stack is the last element) and the flag
  \<open>recurse_\<close> (\<open>it_recurse\<close>).
\<close>

record slot_iterator_impl =
  it_cursors :: "SlotCursor list"
  it_recurse :: bool

definition top_cursor :: "slot_iterator_impl \<Rightarrow> SlotCursor" where
  "top_cursor it = last (it_cursors it)"

definition return_module :: "slot_iterator_impl \<Rightarrow> bool" where
  "return_module it = (sc_i (top_cursor it) = - 1)"

definition cur :: "slot_iterator_impl \<Rightarrow> error + ivalue" where
  "cur it =
     (if return_module it then Inr (Object (sc_module (top_cursor it)))
      else getSlot (sc_module (top_cursor it)) (sc_i (top_cursor it)))"

text \<open>
  The three updates of the stack that \<open>next\<close> makes: \<open>++top().i_\<close>,
  \<open>cursors_.pop_back()\<close> and \<open>cursors_.emplace_back(c)\<close>.
\<close>

definition inc_top :: "slot_iterator_impl \<Rightarrow> slot_iterator_impl" where
  "inc_top it =
     it\<lparr>it_cursors := butlast (it_cursors it) @ [(top_cursor it)\<lparr>sc_i := sc_i (top_cursor it) + 1\<rparr>]\<rparr>"

definition pop_back :: "slot_iterator_impl \<Rightarrow> slot_iterator_impl" where
  "pop_back it = it\<lparr>it_cursors := butlast (it_cursors it)\<rparr>"

definition emplace_back :: "slot_iterator_impl \<Rightarrow> SlotCursor \<Rightarrow> slot_iterator_impl" where
  "emplace_back it c = it\<lparr>it_cursors := it_cursors it @ [c]\<rparr>"

text \<open>
  \<open>next\<close>: one step of the depth-first pre-order walk. The source requires a
  non-empty stack; on an empty stack the model returns the error \<open>IteratorMisuse\<close>.
\<close>

definition next_it :: "slot_iterator_impl \<Rightarrow> error + slot_iterator_impl" where
  "next_it it =
     (if it_cursors it = [] then Inl IteratorMisuse
      else if return_module it then Inr (inc_top it)
      else if int (numAttributes (sc_module (top_cursor it))) \<le> sc_i (top_cursor it)
      then (let it' = pop_back it in if it_cursors it' \<noteq> [] then Inr (inc_top it') else Inr it')
      else if it_recurse it
      then (case getAttribute (sc_module (top_cursor it)) (sc_i (top_cursor it)) of
              Inl e \<Rightarrow> Inl e
            | Inr t \<Rightarrow>
                if is_module t
                then (case cur it of
                        Inl e \<Rightarrow> Inl e
                      | Inr v \<Rightarrow>
                          (case toModule v of
                             Inl e \<Rightarrow> Inl e
                           | Inr m \<Rightarrow> Inr (emplace_back it \<lparr>sc_module = m, sc_i = 0\<rparr>)))
                else Inr (inc_top it))
      else Inr (inc_top it))"

definition valid :: "policy \<Rightarrow> slot_iterator_impl \<Rightarrow> error + bool" where
  "valid P it =
     (if sc_i (top_cursor it) < int (numAttributes (sc_module (top_cursor it)))
      then (case getSlot (sc_module (top_cursor it)) (sc_i (top_cursor it)) of
              Inl e \<Rightarrow> Inl e
            | Inr v \<Rightarrow> Policy_valid P (sc_module (top_cursor it)) (sc_i (top_cursor it)) v)
      else Inr False)"

text \<open>
  The initial state of the constructor, before it looks for the first valid element.
\<close>

definition initial_iterator :: "bool \<Rightarrow> module \<Rightarrow> bool \<Rightarrow> slot_iterator_impl" where
  "initial_iterator r root rm =
     \<lparr>it_cursors = [\<lparr>sc_module = root, sc_i = (if rm then - 1 else 0)\<rparr>], it_recurse = r\<rparr>"

subsection \<open>Termination of the skip loop\<close>

text \<open>
  \<open>work_m m\<close> bounds the number of steps \<open>next\<close> needs to walk through a module and
  leave it; \<open>remaining\<close> adds up what is left for every cursor of the stack. Every
  successful \<open>next\<close> decreases it, from any state.
\<close>

fun work_v :: "ivalue \<Rightarrow> nat" and work_m :: "module \<Rightarrow> nat" and work_s :: "slot \<Rightarrow> nat" where
  "work_v (Object m) = work_m m"
| "work_v (Tensor t) = 0"
| "work_v (OtherValue x) = 0"
| "work_m (Module ss) = Suc (sum_list (map work_s ss))"
| "work_s (Slot n t p v) = Suc (work_v v)"

definition rem_c :: "SlotCursor \<Rightarrow> nat" where
  "rem_c c = Suc (sum_list (map work_s (drop (nat (sc_i c)) (slots (sc_module c))))) + nat (- sc_i c)"

definition remaining :: "slot_iterator_impl \<Rightarrow> nat" where
  "remaining it =
     (if it_cursors it = [] then 0
      else rem_c (last (it_cursors it)) +
           sum_list (map (\<lambda>p. rem_c (p\<lparr>sc_i := sc_i p + 1\<rparr>)) (butlast (it_cursors it))))"

lemma work_m_slots: "work_m m = Suc (sum_list (map work_s (slots m)))"
  by (cases m) simp

lemma work_s_value: "work_s s = Suc (work_v (slot_value s))"
  by (cases s) simp

lemma rem_c_pos: "0 < rem_c c"
  by (simp add: rem_c_def)

lemma rem_c_neg:
  "sc_i c < 0 \<Longrightarrow> rem_c (c\<lparr>sc_i := sc_i c + 1\<rparr>) < rem_c c"
  by (simp add: rem_c_def)

lemma rem_c_inc:
  assumes "0 \<le> sc_i c" and "sc_i c < int (length (slots (sc_module c)))"
  shows "rem_c c = rem_c (c\<lparr>sc_i := sc_i c + 1\<rparr>) + work_s (slots (sc_module c) ! nat (sc_i c))"
proof -
  have lt: "nat (sc_i c) < length (slots (sc_module c))" using assms by simp
  have "nat (sc_i c + 1) = Suc (nat (sc_i c))" using assms by simp
  then show ?thesis
    using Cons_nth_drop_Suc [OF lt, symmetric] assms by (simp add: rem_c_def)
qed

lemma rem_c_step:
  assumes "sc_i c < int (length (slots (sc_module c)))"
  shows "rem_c (c\<lparr>sc_i := sc_i c + 1\<rparr>) < rem_c c"
proof (cases "0 \<le> sc_i c")
  case True
  then show ?thesis using rem_c_inc [OF True assms] by (simp add: work_s_value)
next
  case False
  then show ?thesis by (simp add: rem_c_neg)
qed

lemma remaining_snoc:
  "remaining (it\<lparr>it_cursors := cs @ [c]\<rparr>) =
     rem_c c + sum_list (map (\<lambda>p. rem_c (p\<lparr>sc_i := sc_i p + 1\<rparr>)) cs)"
  by (simp add: remaining_def)

lemma next_it_decreases:
  assumes "next_it it = Inr it'"
  shows "remaining it' < remaining it"
proof (cases "it_cursors it" rule: rev_cases)
  case Nil
  then show ?thesis using assms by (simp add: next_it_def)
next
  case (snoc rest c)
  have top: "top_cursor it = c" by (simp add: top_cursor_def snoc)
  have rem: "remaining it = rem_c c + sum_list (map (\<lambda>p. rem_c (p\<lparr>sc_i := sc_i p + 1\<rparr>)) rest)"
    by (simp add: remaining_def snoc)
  show ?thesis
  proof (cases "sc_i c = - 1")
    case True
    then have "it' = inc_top it" using assms snoc by (simp add: next_it_def return_module_def top)
    then show ?thesis using True rem rem_c_neg [of c]
      by (simp add: inc_top_def top snoc remaining_def)
  next
    case notsent: False
    show ?thesis
    proof (cases "int (numAttributes (sc_module c)) \<le> sc_i c")
      case True
      then have it': "it' = (if rest \<noteq> [] then inc_top (pop_back it) else pop_back it)"
        using assms snoc notsent
        by (auto simp: next_it_def return_module_def top pop_back_def Let_def
            split: if_splits)
      show ?thesis
      proof (cases rest rule: rev_cases)
        case Nil
        then show ?thesis using it' rem rem_c_pos [of c] snoc
          by (simp add: pop_back_def remaining_def)
      next
        case (snoc rest' p)
        then show ?thesis using it' rem rem_c_pos [of c] \<open>it_cursors it = rest @ [c]\<close>
          by (simp add: pop_back_def inc_top_def top_cursor_def remaining_def butlast_append)
      qed
    next
      case inrange: False
      then have lt: "sc_i c < int (length (slots (sc_module c)))"
        by (simp add: numAttributes_def)
      have inc: "remaining (inc_top it) < remaining it"
        using rem rem_c_step [OF lt] by (simp add: inc_top_def top snoc remaining_def)
      show ?thesis
      proof (cases "it_recurse it \<and> getAttribute (sc_module c) (sc_i c) = Inr ModuleType")
        case False
        then have "it' = inc_top it"
          using assms snoc notsent inrange
          by (auto simp: next_it_def return_module_def top split: sum.splits if_splits
              elim: is_module.elims)
        then show ?thesis using inc by simp
      next
        case True
        then obtain s where s: "slot_at (sc_module c) (sc_i c) = Inr s" "slot_type s = ModuleType"
          by (auto simp: getAttribute_def split: sum.splits)
        then have nonneg: "0 \<le> sc_i c" and s_eq: "s = slots (sc_module c) ! nat (sc_i c)"
          by (auto simp: slot_at_def split: if_splits)
        from True s assms snoc notsent inrange obtain m where
          v: "slot_value s = Object m" and it': "it' = emplace_back it \<lparr>sc_module = m, sc_i = 0\<rparr>"
          by (auto simp: next_it_def return_module_def top cur_def getSlot_def toModule_def
              split: sum.splits if_splits elim: toObject.elims)
        have "rem_c \<lparr>sc_module = m, sc_i = 0\<rparr> = work_m m"
          by (simp add: rem_c_def work_m_slots)
        moreover have "work_s s = Suc (work_m m)" using v by (simp add: work_s_value)
        ultimately show ?thesis
          using rem rem_c_inc [OF nonneg lt] s_eq it'
          by (simp add: emplace_back_def snoc remaining_def butlast_append)
      qed
    qed
  qed
qed

text \<open>
  \<open>while_not_valid_next\<close>: advance until the stack is empty, the cursor denotes the
  root itself, or the policy accepts the current slot.
\<close>

function while_not_valid_next :: "policy \<Rightarrow> slot_iterator_impl \<Rightarrow> error + slot_iterator_impl"
  where
  "while_not_valid_next P it =
     (if it_cursors it \<noteq> [] \<and> \<not> return_module it
      then (case valid P it of
              Inl e \<Rightarrow> Inl e
            | Inr ok \<Rightarrow>
                if \<not> ok
                then (case next_it it of
                        Inl e \<Rightarrow> Inl e
                      | Inr it' \<Rightarrow> while_not_valid_next P it')
                else Inr it)
      else Inr it)"
  by pat_completeness auto
termination
  by (relation "measure (\<lambda>(P, it). remaining it)") (auto simp: next_it_decreases)

declare while_not_valid_next.simps [simp del]

definition next_valid :: "policy \<Rightarrow> slot_iterator_impl \<Rightarrow> error + slot_iterator_impl" where
  "next_valid P it =
     (if it_cursors it = [] then Inr it
      else (case next_it it of Inl e \<Rightarrow> Inl e | Inr it' \<Rightarrow> while_not_valid_next P it'))"

definition new_slot_iterator_impl ::
  "policy \<Rightarrow> module \<Rightarrow> bool \<Rightarrow> bool \<Rightarrow> error + slot_iterator_impl" where
  "new_slot_iterator_impl P root recurse return_module_flag =
     while_not_valid_next P (initial_iterator recurse root return_module_flag)"

definition end_iterator :: slot_iterator_impl where
  "end_iterator = \<lparr>it_cursors = [], it_recurse = False\<rparr>"

definition deref :: "policy \<Rightarrow> slot_iterator_impl \<Rightarrow> error + out_value" where
  "deref P it =
     (if it_cursors it = [] then Inl IteratorMisuse
      else (case cur it of Inl e \<Rightarrow> Inl e | Inr v \<Rightarrow> create P (it_cursors it) v))"

definition operator_neq :: "slot_iterator_impl \<Rightarrow> slot_iterator_impl \<Rightarrow> bool" where
  "operator_neq a b = ((it_cursors a = []) \<noteq> (it_cursors b = []))"

lemma while_not_valid_next_le:
  "while_not_valid_next P it = Inr it' \<Longrightarrow> remaining it' \<le> remaining it"
proof (induction P it rule: while_not_valid_next.induct)
  case (1 P it)
  show ?case
  proof (cases "it_cursors it \<noteq> [] \<and> \<not> return_module it \<and> valid P it = Inr False")
    case True
    then obtain it1 where n: "next_it it = Inr it1" and w: "while_not_valid_next P it1 = Inr it'"
      using "1.prems" by (subst (asm) while_not_valid_next.simps) (auto split: sum.splits)
    have "remaining it' \<le> remaining it1"
      using "1.IH" [of False it1] True n w by simp
    then show ?thesis using next_it_decreases [OF n] by simp
  next
    case False
    then have "it' = it"
      using "1.prems" by (subst (asm) while_not_valid_next.simps) (auto split: sum.splits if_splits)
    then show ?thesis by simp
  qed
qed

lemma next_valid_decreases:
  assumes "it_cursors it \<noteq> []" and "next_valid P it = Inr it'"
  shows "remaining it' < remaining it"
proof -
  from assms obtain it1 where n: "next_it it = Inr it1" and w: "while_not_valid_next P it1 = Inr it'"
    by (auto simp: next_valid_def split: sum.splits)
  show ?thesis using next_it_decreases [OF n] while_not_valid_next_le [OF w] by simp
qed

section \<open>The slot view\<close>

text \<open>
  The range-based \<open>for\<close> loop over a view, from an iterator to the end iterator:
  \<open>to_list\<close> collects the dereferenced elements, and \<open>size_loop\<close> is the loop of
  \<open>size()\<close>, which increments the cached counter once per element. The counter that
  \<open>size_loop\<close> returns beside an error is what the cache holds when the loop raises.
\<close>

function to_list :: "policy \<Rightarrow> slot_iterator_impl \<Rightarrow> error + out_value list" where
  "to_list P it =
     (if operator_neq it end_iterator
      then (case deref P it of
              Inl e \<Rightarrow> Inl e
            | Inr x \<Rightarrow>
                (case next_valid P it of
                   Inl e \<Rightarrow> Inl e
                 | Inr it' \<Rightarrow>
                     (case to_list P it' of Inl e \<Rightarrow> Inl e | Inr xs \<Rightarrow> Inr (x # xs))))
      else Inr [])"
  by pat_completeness auto
termination
  by (relation "measure (\<lambda>(P, it). remaining it)")
    (auto simp: operator_neq_def end_iterator_def next_valid_decreases)

declare to_list.simps [simp del]

function size_loop :: "policy \<Rightarrow> slot_iterator_impl \<Rightarrow> nat \<Rightarrow> error option \<times> nat" where
  "size_loop P it n =
     (if operator_neq it end_iterator
      then (case deref P it of
              Inl e \<Rightarrow> (Some e, n)
            | Inr x \<Rightarrow>
                (case next_valid P it of
                   Inl e \<Rightarrow> (Some e, Suc n)
                 | Inr it' \<Rightarrow> size_loop P it' (Suc n)))
      else (None, n))"
  by pat_completeness auto
termination
  by (relation "measure (\<lambda>(P, it, n). remaining it)")
    (auto simp: operator_neq_def end_iterator_def next_valid_decreases)

declare size_loop.simps [simp del]

text \<open>
  \<open>slot_list_impl\<close>: the fields \<open>module_\<close>, \<open>recurse_\<close>, \<open>return_module_\<close> and
  \<open>size_\<close>, its constructor, \<open>begin()\<close>, \<open>end()\<close> and \<open>size()\<close>. \<open>size()\<close>
  changes the cache, so \<open>view_size\<close> returns its result and the view after the call.
\<close>

record slot_list_impl =
  sl_module :: module
  sl_recurse :: bool
  sl_return_module :: bool
  sl_size :: "nat option"

definition new_slot_list_impl :: "policy \<Rightarrow> module \<Rightarrow> bool \<Rightarrow> bool \<Rightarrow> slot_list_impl" where
  "new_slot_list_impl P m recurse return_module_flag =
     \<lparr>sl_module = m, sl_recurse = recurse, sl_return_module = return_module_flag,
      sl_size = (if \<not> recurse \<and> \<not> return_module_flag \<and> all_slots P
                 then Some (num_slots m) else None)\<rparr>"

definition begin_it :: "policy \<Rightarrow> slot_list_impl \<Rightarrow> error + slot_iterator_impl" where
  "begin_it P l = new_slot_iterator_impl P (sl_module l) (sl_recurse l) (sl_return_module l)"

definition end_it :: "policy \<Rightarrow> slot_list_impl \<Rightarrow> slot_iterator_impl" where
  "end_it P l = end_iterator"

definition view_size :: "policy \<Rightarrow> slot_list_impl \<Rightarrow> (error + nat) \<times> slot_list_impl" where
  "view_size P l =
     (case sl_size l of
        Some n \<Rightarrow> (Inr n, l)
      | None \<Rightarrow>
          (case begin_it P l of
             Inl e \<Rightarrow> (Inl e, l\<lparr>sl_size := Some 0\<rparr>)
           | Inr it \<Rightarrow>
               (case size_loop P it 0 of
                  (None, n) \<Rightarrow> (Inr n, l\<lparr>sl_size := Some n\<rparr>)
                | (Some e, n) \<Rightarrow> (Inl e, l\<lparr>sl_size := Some n\<rparr>))))"

text \<open>
  A client's exhaustive iteration of a view and its count; \<open>size_calls k\<close> is the view
  after \<open>k\<close> calls of \<open>size()\<close>.
\<close>

definition elements :: "policy \<Rightarrow> slot_list_impl \<Rightarrow> error + out_value list" where
  "elements P l = (case begin_it P l of Inl e \<Rightarrow> Inl e | Inr it \<Rightarrow> to_list P it)"

definition count_elements :: "policy \<Rightarrow> slot_list_impl \<Rightarrow> error + nat" where
  "count_elements P l = (case elements P l of Inl e \<Rightarrow> Inl e | Inr xs \<Rightarrow> Inr (length xs))"

fun size_calls :: "nat \<Rightarrow> policy \<Rightarrow> slot_list_impl \<Rightarrow> slot_list_impl" where
  "size_calls 0 P l = l"
| "size_calls (Suc k) P l = size_calls k P (snd (view_size P l))"

text \<open>
  \<open>advance n\<close> applies \<open>next\<close> \<open>n\<close> times. The states \<open>advance n\<close> reaches from the
  initial state of a constructor are all the states an iterator passes through: those
  it yields and those the skip loop steps over.
\<close>

fun advance :: "nat \<Rightarrow> slot_iterator_impl \<Rightarrow> error + slot_iterator_impl" where
  "advance 0 it = Inr it"
| "advance (Suc n) it = (case next_it it of Inl e \<Rightarrow> Inl e | Inr it' \<Rightarrow> advance n it')"

definition reachable :: "bool \<Rightarrow> module \<Rightarrow> bool \<Rightarrow> slot_iterator_impl \<Rightarrow> bool" where
  "reachable r root rm it = (\<exists>n. advance n (initial_iterator r root rm) = Inr it)"

section \<open>Client programs\<close>

text \<open>
  A view and the iterators obtained from it are objects held in variables of the client:
  \<open>begin()\<close> and \<open>end()\<close> return a new iterator by value, \<open>operator++\<close> writes the
  cursor stack of the iterator it is called on, \<open>operator*\<close> and \<open>operator!=\<close> only
  read their iterators, and \<open>size()\<close> writes the mutable cache of its view. The store
  holds the client's variables, the views and the iterators apart, each as an association
  list from a variable to the object it holds, the latest binding first. The containers
  of the tree are values inside these objects: the engine has no operation that writes a
  container. A failure of the engine ends the program with \<open>EngineError\<close>, the use of a
  variable that holds nothing with \<open>UnboundVariable\<close>.
\<close>

datatype client_error = EngineError error | UnboundVariable

record store =
  st_views :: "(nat \<times> slot_list_impl) list"
  st_iters :: "(nat \<times> slot_iterator_impl) list"

definition get_view :: "store \<Rightarrow> nat \<Rightarrow> slot_list_impl option" where
  "get_view st a = map_of (st_views st) a"

definition get_iter :: "store \<Rightarrow> nat \<Rightarrow> slot_iterator_impl option" where
  "get_iter st b = map_of (st_iters st) b"

definition set_view :: "nat \<Rightarrow> slot_list_impl \<Rightarrow> store \<Rightarrow> store" where
  "set_view a l st = st\<lparr>st_views := (a, l) # st_views st\<rparr>"

definition set_iter :: "nat \<Rightarrow> slot_iterator_impl \<Rightarrow> store \<Rightarrow> store" where
  "set_iter b it st = st\<lparr>st_iters := (b, it) # st_iters st\<rparr>"

lemma get_set_simps [simp]:
  "get_view (set_view a l st) c = (if c = a then Some l else get_view st c)"
  "get_view (set_iter b it st) c = get_view st c"
  "get_iter (set_iter b it st) c = (if c = b then Some it else get_iter st c)"
  "get_iter (set_view a l st) c = get_iter st c"
  by (simp_all add: get_view_def get_iter_def set_view_def set_iter_def)

text \<open>
  The loop \<open>for (; b != e; ++b) out.push_back(*b)\<close> on two iterator variables: the
  comparison, the dereference and the increment are those of the iterator, and the
  increment is written back to the variable \<open>b\<close>. The loop ends because each
  increment lowers \<open>left_in st b\<close>, the work left to the iterator in \<open>b\<close>.
\<close>

definition left_in :: "store \<Rightarrow> nat \<Rightarrow> nat" where
  "left_in st b = (case get_iter st b of None \<Rightarrow> 0 | Some it \<Rightarrow> remaining it)"

function for_loop ::
  "policy \<Rightarrow> nat \<Rightarrow> nat \<Rightarrow> store \<Rightarrow> client_error + (out_value list \<times> store)" where
  "for_loop P b e st =
     (case get_iter st b of
        None \<Rightarrow> Inl UnboundVariable
      | Some it \<Rightarrow>
          (case get_iter st e of
             None \<Rightarrow> Inl UnboundVariable
           | Some en \<Rightarrow>
               if operator_neq it en
               then (case deref P it of
                       Inl err \<Rightarrow> Inl (EngineError err)
                     | Inr x \<Rightarrow>
                         (case next_valid P it of
                            Inl err \<Rightarrow> Inl (EngineError err)
                          | Inr it' \<Rightarrow>
                              (case for_loop P b e (set_iter b it' st) of
                                 Inl err \<Rightarrow> Inl err
                               | Inr (xs, st') \<Rightarrow> Inr (x # xs, st'))))
               else Inr ([], st)))"
  by pat_completeness auto
termination
proof (relation "measure (\<lambda>(P, b, e, st). left_in st b)")
  show "wf (measure (\<lambda>(P, b, e, st). left_in st b))"
    by simp
next
  fix P b e st it en x it'
  assume b: "get_iter st b = Some it" and d: "deref P it = Inr x"
    and n: "next_valid P it = Inr it'"
  from d have "it_cursors it \<noteq> []" by (auto simp: deref_def split: if_splits)
  then have "remaining it' < remaining it" using n by (rule next_valid_decreases)
  then show "((P, b, e, set_iter b it' st), (P, b, e, st))
       \<in> measure (\<lambda>(P, b, e, st). left_in st b)"
    using b by (simp add: left_in_def)
qed

declare for_loop.simps [simp del]

text \<open>
  The statements of a client: \<open>NewView a m r rm\<close> constructs a view in the variable
  \<open>a\<close>, \<open>Begin a b\<close> is \<open>b = a.begin()\<close>, \<open>End a b\<close> is \<open>b = a.end()\<close>,
  \<open>Copy c b\<close> is \<open>b = c\<close>, \<open>Incr b\<close> is \<open>++b\<close>, \<open>PostIncr b c\<close> is \<open>c = b++\<close>,
  \<open>Deref b\<close> is \<open>*b\<close>, \<open>Size a\<close> is \<open>a.size()\<close> and \<open>Loop b e\<close> is the loop
  above. \<open>exec\<close> returns what the client observes and the store after the statement;
  \<open>run\<close> executes a program, a list of statements, and \<open>observe\<close> keeps the
  observations only.
\<close>

datatype stmt =
    NewView nat module bool bool
  | Begin nat nat
  | End nat nat
  | Copy nat nat
  | Incr nat
  | PostIncr nat nat
  | Deref nat
  | Size nat
  | Loop nat nat

datatype obs = NoValue | Element out_value | Elements "out_value list" | Count nat

fun exec :: "policy \<Rightarrow> stmt \<Rightarrow> store \<Rightarrow> client_error + (obs \<times> store)" where
  "exec P (NewView a m r rm) st = Inr (NoValue, set_view a (new_slot_list_impl P m r rm) st)"
| "exec P (Begin a b) st =
     (case get_view st a of
        None \<Rightarrow> Inl UnboundVariable
      | Some l \<Rightarrow>
          (case begin_it P l of
             Inl err \<Rightarrow> Inl (EngineError err)
           | Inr it \<Rightarrow> Inr (NoValue, set_iter b it st)))"
| "exec P (End a b) st =
     (case get_view st a of
        None \<Rightarrow> Inl UnboundVariable
      | Some l \<Rightarrow> Inr (NoValue, set_iter b (end_it P l) st))"
| "exec P (Copy c b) st =
     (case get_iter st c of
        None \<Rightarrow> Inl UnboundVariable
      | Some it \<Rightarrow> Inr (NoValue, set_iter b it st))"
| "exec P (Incr b) st =
     (case get_iter st b of
        None \<Rightarrow> Inl UnboundVariable
      | Some it \<Rightarrow>
          (case next_valid P it of
             Inl err \<Rightarrow> Inl (EngineError err)
           | Inr it' \<Rightarrow> Inr (NoValue, set_iter b it' st)))"
| "exec P (PostIncr b c) st =
     (case get_iter st b of
        None \<Rightarrow> Inl UnboundVariable
      | Some it \<Rightarrow>
          (case next_valid P it of
             Inl err \<Rightarrow> Inl (EngineError err)
           | Inr it' \<Rightarrow> Inr (NoValue, set_iter c it (set_iter b it' st))))"
| "exec P (Deref b) st =
     (case get_iter st b of
        None \<Rightarrow> Inl UnboundVariable
      | Some it \<Rightarrow>
          (case deref P it of
             Inl err \<Rightarrow> Inl (EngineError err)
           | Inr x \<Rightarrow> Inr (Element x, st)))"
| "exec P (Size a) st =
     (case get_view st a of
        None \<Rightarrow> Inl UnboundVariable
      | Some l \<Rightarrow>
          (case view_size P l of
             (Inl err, l') \<Rightarrow> Inl (EngineError err)
           | (Inr n, l') \<Rightarrow> Inr (Count n, set_view a l' st)))"
| "exec P (Loop b e) st =
     (case for_loop P b e st of
        Inl err \<Rightarrow> Inl err
      | Inr (xs, st') \<Rightarrow> Inr (Elements xs, st'))"

fun run :: "policy \<Rightarrow> stmt list \<Rightarrow> store \<Rightarrow> client_error + (obs list \<times> store)" where
  "run P [] st = Inr ([], st)"
| "run P (c # cs) st =
     (case exec P c st of
        Inl err \<Rightarrow> Inl err
      | Inr (ob, st1) \<Rightarrow>
          (case run P cs st1 of
             Inl err \<Rightarrow> Inl err
           | Inr (obs, st2) \<Rightarrow> Inr (ob # obs, st2)))"

definition observe :: "policy \<Rightarrow> stmt list \<Rightarrow> store \<Rightarrow> client_error + obs list" where
  "observe P prog st = (case run P prog st of Inl err \<Rightarrow> Inl err | Inr (obs, st') \<Rightarrow> Inr obs)"

text \<open>
  The range-based \<open>for\<close> loop over the view in \<open>a\<close>, with \<open>b\<close> and \<open>e\<close> the
  variables that hold its begin and end iterators; \<open>assigns_view a\<close> tells the
  statements that put a new view in the variable \<open>a\<close>, and \<open>writes_iter b\<close> those that
  write the iterator variable \<open>b\<close>.
\<close>

definition range_for :: "nat \<Rightarrow> nat \<Rightarrow> nat \<Rightarrow> stmt list" where
  "range_for a b e = [Begin a b, End a e, Loop b e]"

fun assigns_view :: "nat \<Rightarrow> stmt \<Rightarrow> bool" where
  "assigns_view a (NewView a' m r rm) = (a' = a)"
| "assigns_view a c = False"

fun writes_iter :: "nat \<Rightarrow> stmt \<Rightarrow> bool" where
  "writes_iter b (Begin a c) = (c = b)"
| "writes_iter b (End a c) = (c = b)"
| "writes_iter b (Copy c d) = (d = b)"
| "writes_iter b (Incr c) = (c = b)"
| "writes_iter b (PostIncr c d) = (c = b \<or> d = b)"
| "writes_iter b (Loop c d) = (c = b)"
| "writes_iter b c = False"

section \<open>Reference notions of the specification\<close>

text \<open>
  A structurally valid tree: every slot whose declared type is a tensor type holds a
  tensor, and every slot whose declared type is a module type holds an object that is a
  structurally valid container in turn.
\<close>

fun wf_v :: "ivalue \<Rightarrow> bool" and wf_m :: "module \<Rightarrow> bool" and wf_s :: "slot \<Rightarrow> bool" where
  "wf_v (Tensor t) = True"
| "wf_v (OtherValue x) = True"
| "wf_v (Object m) = wf_m m"
| "wf_m (Module ss) = list_all wf_s ss"
| "wf_s (Slot n t p v) =
     (case t of
        TensorType \<Rightarrow> isTensor v
      | ModuleType \<Rightarrow> (case v of Object m \<Rightarrow> wf_m m | _ \<Rightarrow> False)
      | OtherType \<Rightarrow> True)"

text \<open>
  The containers reachable from a root (the root included), through the slots of
  module type, and the sum of their slot counts.
\<close>

fun containers :: "module \<Rightarrow> module list"
  and sub_containers :: "slot list \<Rightarrow> module list" where
  "containers (Module ss) = Module ss # sub_containers ss"
| "sub_containers [] = []"
| "sub_containers (Slot n t p v # ss) =
     (if is_module t then (case v of Object m \<Rightarrow> containers m | _ \<Rightarrow> []) else [])
     @ sub_containers ss"

definition total_slots :: "module \<Rightarrow> nat" where
  "total_slots root = sum_list (map numAttributes (containers root))"

text \<open>
  The positions of a depth-first pre-order walk, each as the stack of cursors from the
  root to the slot: every slot of a module in order, and after a slot of module type,
  when recursing, the positions inside the module it holds. \<open>yield_positions\<close> are
  those the view yields: the root itself when it is included, and the positions that the
  policy's \<open>valid\<close> accepts. \<open>collect\<close> dereferences a list of positions in order.
\<close>

fun preorder_m :: "bool \<Rightarrow> SlotCursor list \<Rightarrow> module \<Rightarrow> SlotCursor list list"
  and preorder_ss ::
    "bool \<Rightarrow> SlotCursor list \<Rightarrow> module \<Rightarrow> nat \<Rightarrow> slot list \<Rightarrow> SlotCursor list list" where
  "preorder_m r path (Module ss) = preorder_ss r path (Module ss) 0 ss"
| "preorder_ss r path m j [] = []"
| "preorder_ss r path m j (Slot n t p v # ss) =
     (path @ [\<lparr>sc_module = m, sc_i = int j\<rparr>])
     # (if r \<and> is_module t
        then (case v of
                Object m' \<Rightarrow> preorder_m r (path @ [\<lparr>sc_module = m, sc_i = int j\<rparr>]) m'
              | _ \<Rightarrow> [])
        else [])
     @ preorder_ss r path m (Suc j) ss"

definition accepted :: "policy \<Rightarrow> bool \<Rightarrow> SlotCursor list \<Rightarrow> bool" where
  "accepted P r cs = (valid P \<lparr>it_cursors = cs, it_recurse = r\<rparr> = Inr True)"

definition yield_positions ::
  "policy \<Rightarrow> bool \<Rightarrow> bool \<Rightarrow> module \<Rightarrow> SlotCursor list list" where
  "yield_positions P r rm root =
     (if rm then [[\<lparr>sc_module = root, sc_i = - 1\<rparr>]] else [])
     @ filter (accepted P r) (preorder_m r [] root)"

fun collect :: "policy \<Rightarrow> bool \<Rightarrow> SlotCursor list list \<Rightarrow> error + out_value list" where
  "collect P r [] = Inr []"
| "collect P r (cs # poss) =
     (case deref P \<lparr>it_cursors = cs, it_recurse = r\<rparr> of
        Inl e \<Rightarrow> Inl e
      | Inr x \<Rightarrow> (case collect P r poss of Inl e \<Rightarrow> Inl e | Inr xs \<Rightarrow> Inr (x # xs)))"

definition walk :: "policy \<Rightarrow> slot_iterator_impl \<Rightarrow> error + out_value list" where
  "walk P it = (case while_not_valid_next P it of Inl e \<Rightarrow> Inl e | Inr it' \<Rightarrow> to_list P it')"

definition append_res :: "error + 'a list \<Rightarrow> error + 'a list \<Rightarrow> error + 'a list" where
  "append_res a b =
     (case a of
        Inl e \<Rightarrow> Inl e
      | Inr xs \<Rightarrow> (case b of Inl e \<Rightarrow> Inl e | Inr ys \<Rightarrow> Inr (xs @ ys)))"

definition after_pop :: "SlotCursor list \<Rightarrow> SlotCursor list" where
  "after_pop path =
     (if path = [] then [] else butlast path @ [(last path)\<lparr>sc_i := sc_i (last path) + 1\<rparr>])"

text \<open>
  The qualified name of a position in the specification's words: the slot names of the
  frames from the root to the current position, joined by dots; empty for the single
  sentinel frame. (\<open>dotted\<close> is what the stream holds after the first fragment.)
\<close>

definition slot_name_at :: "SlotCursor \<Rightarrow> string" where
  "slot_name_at c = slot_name (slots (sc_module c) ! nat (sc_i c))"

fun dot_join :: "string list \<Rightarrow> string" where
  "dot_join [] = []"
| "dot_join [f] = f"
| "dot_join (f # g # fs) = f @ ''.'' @ dot_join (g # fs)"

definition dotted :: "string list \<Rightarrow> string" where
  "dotted fs = concat (map (\<lambda>f. ''.'' @ f) fs)"

definition path_name :: "SlotCursor list \<Rightarrow> string" where
  "path_name cs =
     (if length cs = 1 \<and> sc_i (last cs) = - 1 then [] else dot_join (map slot_name_at cs))"

text \<open>
  A slot accepted by a policy; a policy whose \<open>create\<close> takes an object (the only ones
  that can yield the root); and the conditions on cursors used by the invariants.
\<close>

definition accepts :: "policy \<Rightarrow> module \<Rightarrow> nat \<Rightarrow> bool" where
  "accepts P m i = (Policy_valid P m (int i) (slot_value (slots m ! i)) = Inr True)"

fun takes_object :: "policy \<Rightarrow> bool" where
  "takes_object ModulePolicy = True"
| "takes_object AttributePolicy = True"
| "takes_object ParameterPolicy = False"
| "takes_object BufferPolicy = False"
| "takes_object (NamedPolicy P) = takes_object P"

definition in_range :: "SlotCursor \<Rightarrow> bool" where
  "in_range c = (0 \<le> sc_i c \<and> sc_i c < int (numAttributes (sc_module c)))"

definition top_in_range :: "SlotCursor list \<Rightarrow> bool" where
  "top_in_range cs =
     (cs \<noteq> [] \<and> 0 \<le> sc_i (last cs) \<and> sc_i (last cs) < int (length (slots (sc_module (last cs)))))"

definition frame_ok :: "SlotCursor \<Rightarrow> bool" where
  "frame_ok c = (in_range c \<and> wf_m (sc_module c))"

definition stack_inv :: "SlotCursor list \<Rightarrow> bool" where
  "stack_inv cs =
     (list_all in_range (butlast cs)
      \<and> (cs \<noteq> [] \<longrightarrow> 0 \<le> sc_i (last cs) \<and> sc_i (last cs) \<le> int (numAttributes (sc_module (last cs)))))"

text \<open>
  The modules and iterator states used as concrete instances.
\<close>

definition one_slot_module :: module where
  "one_slot_module = Module [Slot ''weight'' TensorType True (Tensor 0)]"

definition at_first_slot :: slot_iterator_impl where
  "at_first_slot = \<lparr>it_cursors = [\<lparr>sc_module = one_slot_module, sc_i = 0\<rparr>], it_recurse = False\<rparr>"

definition two_level_module :: module where
  "two_level_module =
     Module [Slot ''a'' TensorType True (Tensor 1),
             Slot ''b'' ModuleType False (Object (Module [Slot ''c'' TensorType False (Tensor 2)]))]"

definition inner_module :: module where
  "inner_module = Module [Slot ''c'' TensorType False (Tensor 2)]"

definition inside_b :: slot_iterator_impl where
  "inside_b =
     \<lparr>it_cursors = [\<lparr>sc_module = two_level_module, sc_i = 1\<rparr>,
                    \<lparr>sc_module = inner_module, sc_i = 0\<rparr>],
      it_recurse = True\<rparr>"

definition client_store :: store where
  "client_store =
     \<lparr>st_views = [(0, new_slot_list_impl (NamedPolicy AttributePolicy) two_level_module True False)],
      st_iters = [(1, \<lparr>it_cursors = [\<lparr>sc_module = two_level_module, sc_i = 1\<rparr>],
                        it_recurse = True\<rparr>),
                  (2, end_iterator)]\<rparr>"

section \<open>The skip loop and single steps\<close>

lemma while_not_valid_next_stop:
  "it_cursors it = [] \<or> return_module it \<or> valid P it = Inr True \<Longrightarrow>
   while_not_valid_next P it = Inr it"
  by (subst while_not_valid_next.simps) auto

lemma while_not_valid_next_skip:
  "it_cursors it \<noteq> [] \<Longrightarrow> \<not> return_module it \<Longrightarrow> valid P it = Inr False \<Longrightarrow>
   while_not_valid_next P it =
     (case next_it it of Inl e \<Rightarrow> Inl e | Inr it' \<Rightarrow> while_not_valid_next P it')"
  by (subst while_not_valid_next.simps) simp

lemma append_res_simps [simp]:
  "append_res (Inl e) b = Inl e"
  "append_res (Inr []) b = b"
  "append_res (Inr xs) (Inr ys) = Inr (xs @ ys)"
  "append_res (Inr xs) (Inl e) = Inl e"
  by (auto simp: append_res_def split: sum.splits)

lemma append_res_assoc:
  "append_res (append_res a b) c = append_res a (append_res b c)"
  by (auto simp: append_res_def split: sum.splits)

lemma collect_append:
  "collect P r (xs @ ys) = append_res (collect P r xs) (collect P r ys)"
  by (induction xs) (auto simp: append_res_def split: sum.splits)

lemma collect_length:
  "collect P r poss = Inr xs \<Longrightarrow> length xs = length poss"
  by (induction poss arbitrary: xs) (auto split: sum.splits)

lemma collect_total:
  assumes "list_all (\<lambda>cs. \<exists>x. deref P \<lparr>it_cursors = cs, it_recurse = r\<rparr> = Inr x) poss"
  shows "\<exists>xs. collect P r poss = Inr xs \<and> length xs = length poss"
  using assms by (induction poss) auto

lemma walk_end: "it_cursors it = [] \<Longrightarrow> walk P it = Inr []"
  by (simp add: walk_def while_not_valid_next_stop to_list.simps operator_neq_def
      end_iterator_def)

lemma walk_yield:
  assumes "it_cursors it \<noteq> []" and "return_module it \<or> valid P it = Inr True"
  shows "walk P it =
     (case deref P it of
        Inl e \<Rightarrow> Inl e
      | Inr x \<Rightarrow>
          (case next_it it of
             Inl e \<Rightarrow> Inl e
           | Inr it' \<Rightarrow> (case walk P it' of Inl e \<Rightarrow> Inl e | Inr xs \<Rightarrow> Inr (x # xs))))"
proof -
  have stop: "while_not_valid_next P it = Inr it"
    using assms by (simp add: while_not_valid_next_stop)
  have neq: "operator_neq it end_iterator"
    using assms by (simp add: operator_neq_def end_iterator_def)
  have "to_list P it =
     (case deref P it of
        Inl e \<Rightarrow> Inl e
      | Inr x \<Rightarrow>
          (case next_valid P it of
             Inl e \<Rightarrow> Inl e
           | Inr it' \<Rightarrow> (case to_list P it' of Inl e \<Rightarrow> Inl e | Inr xs \<Rightarrow> Inr (x # xs))))"
    by (subst to_list.simps) (simp add: neq)
  then show ?thesis
    by (simp add: walk_def stop next_valid_def assms(1) split: sum.splits)
qed

lemma walk_skip:
  assumes "it_cursors it \<noteq> []" and "\<not> return_module it" and "valid P it = Inr False"
  shows "walk P it = (case next_it it of Inl e \<Rightarrow> Inl e | Inr it' \<Rightarrow> walk P it')"
  unfolding walk_def using assms
  by (simp add: while_not_valid_next_skip split: sum.splits)

lemma top_cursor_snoc [simp]:
  "top_cursor \<lparr>it_cursors = path @ [c], it_recurse = r\<rparr> = c"
  by (simp add: top_cursor_def)

lemma Policy_valid_in_range:
  assumes "j < length (slots m)"
  shows "\<exists>b. Policy_valid P m (int j) v = Inr b"
  using assms
  by (induction P)
    (auto simp: getAttribute_def is_parameter_def slot_at_def split: sum.splits)

lemma valid_at:
  "valid P \<lparr>it_cursors = path @ [\<lparr>sc_module = m, sc_i = int j\<rparr>], it_recurse = r\<rparr> =
     (if j < length (slots m) then Policy_valid P m (int j) (slot_value (slots m ! j))
      else Inr False)"
  by (simp add: valid_def numAttributes_def getSlot_def slot_at_def)

lemma valid_NamedPolicy: "valid (NamedPolicy P) it = valid P it"
  by (simp add: valid_def split: sum.splits)

lemma accepted_NamedPolicy: "accepted (NamedPolicy P) r = accepted P r"
  by (rule ext) (simp add: accepted_def valid_NamedPolicy)

lemma yield_positions_NamedPolicy:
  "yield_positions (NamedPolicy P) r rm root = yield_positions P r rm root"
  by (simp add: yield_positions_def accepted_NamedPolicy)

lemma valid_top_below:
  assumes "valid P it = Inr True"
  shows "sc_i (last (it_cursors it)) < int (numAttributes (sc_module (last (it_cursors it))))"
  using assms by (auto simp: valid_def top_cursor_def split: if_splits)

lemma next_it_past_end:
  assumes "length (slots m) \<le> j"
  shows "next_it \<lparr>it_cursors = path @ [\<lparr>sc_module = m, sc_i = int j\<rparr>], it_recurse = r\<rparr> =
     Inr \<lparr>it_cursors = after_pop path, it_recurse = r\<rparr>"
  using assms
  by (simp add: next_it_def return_module_def numAttributes_def pop_back_def inc_top_def
      after_pop_def top_cursor_def)

lemma next_it_inc:
  assumes "j < length (slots m)" and "\<not> (r \<and> is_module (slot_type (slots m ! j)))"
  shows "next_it \<lparr>it_cursors = path @ [\<lparr>sc_module = m, sc_i = int j\<rparr>], it_recurse = r\<rparr> =
     Inr \<lparr>it_cursors = path @ [\<lparr>sc_module = m, sc_i = int (Suc j)\<rparr>], it_recurse = r\<rparr>"
  using assms
  by (auto simp: next_it_def return_module_def numAttributes_def inc_top_def
      getAttribute_def slot_at_def add.commute)

lemma next_it_push:
  assumes "j < length (slots m)" and "r" and "is_module (slot_type (slots m ! j))"
    and "slot_value (slots m ! j) = Object m'"
  shows "next_it \<lparr>it_cursors = path @ [\<lparr>sc_module = m, sc_i = int j\<rparr>], it_recurse = r\<rparr> =
     Inr \<lparr>it_cursors = (path @ [\<lparr>sc_module = m, sc_i = int j\<rparr>]) @ [\<lparr>sc_module = m', sc_i = 0\<rparr>],
          it_recurse = r\<rparr>"
  using assms
  by (simp add: next_it_def return_module_def numAttributes_def emplace_back_def
      getAttribute_def slot_at_def cur_def getSlot_def toModule_def)

lemma next_it_at_end:
  assumes "it_cursors it \<noteq> []"
    and "sc_i (last (it_cursors it)) = int (numAttributes (sc_module (last (it_cursors it))))"
  shows "next_it it = Inr (it\<lparr>it_cursors := after_pop (butlast (it_cursors it))\<rparr>)"
  using assms
  by (simp add: next_it_def return_module_def top_cursor_def pop_back_def inc_top_def
      after_pop_def)

lemma after_pop_snoc [simp]:
  "after_pop (path @ [\<lparr>sc_module = m, sc_i = int j\<rparr>]) =
     path @ [\<lparr>sc_module = m, sc_i = int (Suc j)\<rparr>]"
  by (simp add: after_pop_def add.commute)

lemma next_it_cases:
  assumes "next_it it = Inr it'"
  obtains
    (sentinel) rest c where "it_cursors it = rest @ [c]" "sc_i c = - 1"
      "it_cursors it' = rest @ [c\<lparr>sc_i := 0\<rparr>]"
  | (pop) rest c where "it_cursors it = rest @ [c]" "sc_i c \<noteq> - 1"
      "int (numAttributes (sc_module c)) \<le> sc_i c" "it_cursors it' = after_pop rest"
  | (push) rest c m where "it_cursors it = rest @ [c]" "in_range c" "it_recurse it"
      "getAttribute (sc_module c) (sc_i c) = Inr ModuleType"
      "getSlot (sc_module c) (sc_i c) = Inr (Object m)"
      "it_cursors it' = rest @ [c, \<lparr>sc_module = m, sc_i = 0\<rparr>]"
  | (inc) rest c where "it_cursors it = rest @ [c]" "sc_i c \<noteq> - 1"
      "sc_i c < int (numAttributes (sc_module c))"
      "it_cursors it' = rest @ [c\<lparr>sc_i := sc_i c + 1\<rparr>]"
proof (cases "it_cursors it" rule: rev_cases)
  case Nil
  then show ?thesis using assms by (simp add: next_it_def)
next
  case (snoc rest c)
  have top: "top_cursor it = c" by (simp add: top_cursor_def snoc)
  show ?thesis
  proof (cases "sc_i c = - 1")
    case True
    then have "it' = inc_top it" using assms snoc by (simp add: next_it_def return_module_def top)
    then have "it_cursors it' = rest @ [c\<lparr>sc_i := 0\<rparr>]"
      using True by (simp add: inc_top_def top snoc)
    then show ?thesis using sentinel snoc True by blast
  next
    case notsent: False
    show ?thesis
    proof (cases "int (numAttributes (sc_module c)) \<le> sc_i c")
      case True
      then have "it' = (if rest \<noteq> [] then inc_top (pop_back it) else pop_back it)"
        using assms snoc notsent
        by (auto simp: next_it_def return_module_def top pop_back_def Let_def split: if_splits)
      then have "it_cursors it' = after_pop rest"
        by (simp add: after_pop_def inc_top_def pop_back_def top_cursor_def snoc)
      then show ?thesis using pop snoc notsent True by blast
    next
      case lt: False
      show ?thesis
      proof (cases "it_recurse it \<and> getAttribute (sc_module c) (sc_i c) = Inr ModuleType")
        case False
        then have "it' = inc_top it"
          using assms snoc notsent lt
          by (auto simp: next_it_def return_module_def top split: sum.splits if_splits
              elim: is_module.elims)
        then have "it_cursors it' = rest @ [c\<lparr>sc_i := sc_i c + 1\<rparr>]"
          by (simp add: inc_top_def top snoc)
        then show ?thesis using inc snoc notsent lt by simp
      next
        case True
        then have nonneg: "0 \<le> sc_i c"
          by (auto simp: getAttribute_def slot_at_def split: sum.splits if_splits)
        from True assms snoc notsent lt obtain m where
          v: "getSlot (sc_module c) (sc_i c) = Inr (Object m)"
          and it': "it' = emplace_back it \<lparr>sc_module = m, sc_i = 0\<rparr>"
          by (auto simp: next_it_def return_module_def top cur_def toModule_def
              split: sum.splits if_splits elim: toObject.elims)
        have "it_cursors it' = rest @ [c, \<lparr>sc_module = m, sc_i = 0\<rparr>]"
          using it' by (simp add: emplace_back_def snoc)
        moreover have "in_range c" using nonneg lt by (simp add: in_range_def)
        ultimately show ?thesis using push snoc True v by blast
      qed
    qed
  qed
qed

lemma next_it_recurse: "next_it it = Inr it' \<Longrightarrow> it_recurse it' = it_recurse it"
  by (auto simp: next_it_def inc_top_def pop_back_def emplace_back_def Let_def
      split: if_splits sum.splits)

section \<open>The iteration yields the accepted positions in pre-order\<close>

text \<open>
  Walking from the first slot of a module, with any stack below it, yields the accepted
  positions of the module in pre-order and goes on in the stack below
  (\<open>walk_preorder_aux\<close>). So the elements of a view are the dereferenced
  \<open>yield_positions\<close>, in order (\<open>elements_preorder\<close>). Only a recursive view needs
  the tree to be structurally valid here: it converts the value of every slot of module
  type to a module.
\<close>

lemma walk_at_slot:
  assumes "j < length (slots m)"
    and "next_it \<lparr>it_cursors = path @ [\<lparr>sc_module = m, sc_i = int j\<rparr>], it_recurse = r\<rparr> = Inr it'"
  shows "walk P \<lparr>it_cursors = path @ [\<lparr>sc_module = m, sc_i = int j\<rparr>], it_recurse = r\<rparr> =
     append_res
       (collect P r (filter (accepted P r) [path @ [\<lparr>sc_module = m, sc_i = int j\<rparr>]]))
       (walk P it')"
proof -
  let ?it = "\<lparr>it_cursors = path @ [\<lparr>sc_module = m, sc_i = int j\<rparr>], it_recurse = r\<rparr>"
  obtain b where b: "valid P ?it = Inr b"
    using Policy_valid_in_range [OF assms(1)] by (auto simp: valid_at assms(1))
  have ne: "it_cursors ?it \<noteq> []" and nr: "\<not> return_module ?it"
    by (simp_all add: return_module_def)
  show ?thesis
  proof (cases b)
    case True
    then show ?thesis
      using walk_yield [OF ne, of P] b assms(2)
      by (simp add: accepted_def append_res_def split: sum.splits)
  next
    case False
    then show ?thesis
      using walk_skip [OF ne nr, of P] b assms(2) by (simp add: accepted_def)
  qed
qed

lemma walk_preorder_aux:
  "((r \<longrightarrow> wf_m mm) \<longrightarrow>
      walk P \<lparr>it_cursors = path0 @ [\<lparr>sc_module = mm, sc_i = 0\<rparr>], it_recurse = r\<rparr> =
        append_res (collect P r (filter (accepted P r) (preorder_m r path0 mm)))
          (walk P \<lparr>it_cursors = after_pop path0, it_recurse = r\<rparr>))"
  "(drop j (slots m) = ss \<longrightarrow> (r \<longrightarrow> list_all wf_s ss) \<longrightarrow>
      walk P \<lparr>it_cursors = path @ [\<lparr>sc_module = m, sc_i = int j\<rparr>], it_recurse = r\<rparr> =
        append_res (collect P r (filter (accepted P r) (preorder_ss r path m j ss)))
          (walk P \<lparr>it_cursors = after_pop path, it_recurse = r\<rparr>))"
proof (induction r path0 mm and r path m j ss rule: preorder_m_preorder_ss.induct)
  case (1 r path ss)
  then show ?case by simp
next
  case (2 r path m j)
  show ?case
  proof (intro impI)
    assume "drop j (slots m) = []"
    then have le: "length (slots m) \<le> j" by simp
    let ?it = "\<lparr>it_cursors = path @ [\<lparr>sc_module = m, sc_i = int j\<rparr>], it_recurse = r\<rparr>"
    have "valid P ?it = Inr False" using le by (simp add: valid_at)
    moreover have "it_cursors ?it \<noteq> []" "\<not> return_module ?it"
      by (simp_all add: return_module_def)
    ultimately have "walk P ?it = walk P \<lparr>it_cursors = after_pop path, it_recurse = r\<rparr>"
      using walk_skip [of ?it P] next_it_past_end [OF le, of path r] by simp
    then show "walk P ?it =
        append_res (collect P r (filter (accepted P r) (preorder_ss r path m j [])))
          (walk P \<lparr>it_cursors = after_pop path, it_recurse = r\<rparr>)"
      by simp
  qed
next
  case (3 r path m j n t p v ss)
  show ?case
  proof (intro impI)
    assume dr: "drop j (slots m) = Slot n t p v # ss"
      and wf: "r \<longrightarrow> list_all wf_s (Slot n t p v # ss)"
    have lt: "j < length (slots m)"
      using dr by (metis drop_all leI list.distinct(1))
    have sj: "slots m ! j = Slot n t p v" and dr': "drop (Suc j) (slots m) = ss"
      using dr lt by (simp_all add: Cons_nth_drop_Suc [symmetric])
    let ?here = "path @ [\<lparr>sc_module = m, sc_i = int j\<rparr>]"
    let ?it = "\<lparr>it_cursors = ?here, it_recurse = r\<rparr>"
    let ?cont = "walk P \<lparr>it_cursors = after_pop path, it_recurse = r\<rparr>"
    have rest: "walk P \<lparr>it_cursors = path @ [\<lparr>sc_module = m, sc_i = int (Suc j)\<rparr>], it_recurse = r\<rparr> =
        append_res (collect P r (filter (accepted P r) (preorder_ss r path m (Suc j) ss))) ?cont"
      using "3.IH"(2) dr' wf by simp
    show "walk P ?it =
        append_res (collect P r (filter (accepted P r) (preorder_ss r path m j (Slot n t p v # ss))))
          ?cont"
    proof (cases "r \<and> is_module t")
      case False
      have "next_it ?it = Inr \<lparr>it_cursors = path @ [\<lparr>sc_module = m, sc_i = int (Suc j)\<rparr>], it_recurse = r\<rparr>"
        using next_it_inc [OF lt, of r path] False sj by simp
      then have "walk P ?it =
          append_res (collect P r (filter (accepted P r) [?here]))
            (append_res (collect P r (filter (accepted P r) (preorder_ss r path m (Suc j) ss)))
               ?cont)"
        using walk_at_slot [OF lt, of path r _ P] rest by simp
      moreover have "preorder_ss r path m j (Slot n t p v # ss) =
          [?here] @ preorder_ss r path m (Suc j) ss"
        using False by auto
      ultimately show ?thesis
        by (simp only: filter_append collect_append append_res_assoc)
    next
      case True
      then have "wf_s (Slot n t p v)" using wf by simp
      then obtain m' where v: "v = Object m'" and wfm': "wf_m m'"
        using True by (cases t; cases v) auto
      have nx: "next_it ?it = Inr \<lparr>it_cursors = ?here @ [\<lparr>sc_module = m', sc_i = 0\<rparr>], it_recurse = r\<rparr>"
        using next_it_push [OF lt, of r m' path] True sj v by simp
      have sub: "walk P \<lparr>it_cursors = ?here @ [\<lparr>sc_module = m', sc_i = 0\<rparr>], it_recurse = r\<rparr> =
          append_res (collect P r (filter (accepted P r) (preorder_m r ?here m')))
            (walk P \<lparr>it_cursors = path @ [\<lparr>sc_module = m, sc_i = int (Suc j)\<rparr>], it_recurse = r\<rparr>)"
        using "3.IH"(1) [OF True v] wfm' by simp
      have "walk P ?it =
          append_res (collect P r (filter (accepted P r) [?here]))
            (append_res (collect P r (filter (accepted P r) (preorder_m r ?here m')))
               (append_res
                  (collect P r (filter (accepted P r) (preorder_ss r path m (Suc j) ss)))
                  ?cont))"
        using walk_at_slot [OF lt nx, of P] sub rest by simp
      moreover have "preorder_ss r path m j (Slot n t p v # ss) =
          [?here] @ preorder_m r ?here m' @ preorder_ss r path m (Suc j) ss"
        using True v by simp
      ultimately show ?thesis
        by (simp only: filter_append collect_append append_res_assoc)
    qed
  qed
qed

lemma elements_walk:
  "elements P (new_slot_list_impl P root r rm) =
     walk P \<lparr>it_cursors = [\<lparr>sc_module = root, sc_i = (if rm then - 1 else 0)\<rparr>], it_recurse = r\<rparr>"
  by (simp add: elements_def begin_it_def new_slot_list_impl_def new_slot_iterator_impl_def
      initial_iterator_def walk_def)

lemma walk_from_root:
  assumes "r \<longrightarrow> wf_m root"
  shows "walk P \<lparr>it_cursors = [\<lparr>sc_module = root, sc_i = 0\<rparr>], it_recurse = r\<rparr> =
     collect P r (filter (accepted P r) (preorder_m r [] root))"
proof -
  have "walk P \<lparr>it_cursors = [] @ [\<lparr>sc_module = root, sc_i = 0\<rparr>], it_recurse = r\<rparr> =
      append_res (collect P r (filter (accepted P r) (preorder_m r [] root)))
        (walk P \<lparr>it_cursors = after_pop [], it_recurse = r\<rparr>)"
    using walk_preorder_aux(1) [of r root P "[]"] assms by blast
  moreover have "walk P \<lparr>it_cursors = after_pop [], it_recurse = r\<rparr> = Inr []"
    by (simp add: walk_end after_pop_def)
  ultimately show ?thesis
    by (simp add: append_res_def split: sum.splits)
qed

lemma elements_preorder:
  assumes "r \<longrightarrow> wf_m root"
  shows "elements P (new_slot_list_impl P root r rm) = collect P r (yield_positions P r rm root)"
proof (cases rm)
  case False
  then show ?thesis
    using walk_from_root [OF assms, of P] by (simp add: elements_walk yield_positions_def)
next
  case True
  let ?it = "\<lparr>it_cursors = [\<lparr>sc_module = root, sc_i = - 1\<rparr>], it_recurse = r\<rparr>"
  have ne: "it_cursors ?it \<noteq> []" and rmod: "return_module ?it"
    by (simp_all add: return_module_def top_cursor_def)
  have nx: "next_it ?it = Inr \<lparr>it_cursors = [\<lparr>sc_module = root, sc_i = 0\<rparr>], it_recurse = r\<rparr>"
    by (simp add: next_it_def return_module_def top_cursor_def inc_top_def)
  have "walk P ?it =
      (case deref P ?it of
         Inl e \<Rightarrow> Inl e
       | Inr x \<Rightarrow>
           (case collect P r (filter (accepted P r) (preorder_m r [] root)) of
              Inl e \<Rightarrow> Inl e
            | Inr xs \<Rightarrow> Inr (x # xs)))"
    using walk_yield [OF ne, of P] rmod nx walk_from_root [OF assms, of P]
    by (simp split: sum.splits)
  then show ?thesis
    using True by (simp add: elements_walk yield_positions_def)
qed

lemma preorder_top_in_range:
  "cs \<in> set (preorder_m r path0 mm) \<longrightarrow> top_in_range cs"
  "cs \<in> set (preorder_ss r path m j ss) \<longrightarrow> j + length ss \<le> length (slots m) \<longrightarrow> top_in_range cs"
proof (induction r path0 mm and r path m j ss rule: preorder_m_preorder_ss.induct)
  case (1 r path ss)
  then show ?case by simp
next
  case (2 r path m j)
  then show ?case by simp
next
  case (3 r path m j n t p v ss)
  show ?case
  proof (intro impI)
    assume mem: "cs \<in> set (preorder_ss r path m j (Slot n t p v # ss))"
      and len: "j + length (Slot n t p v # ss) \<le> length (slots m)"
    have "cs = path @ [\<lparr>sc_module = m, sc_i = int j\<rparr>]
        \<or> (\<exists>m'. (r \<and> is_module t) \<and> v = Object m'
              \<and> cs \<in> set (preorder_m r (path @ [\<lparr>sc_module = m, sc_i = int j\<rparr>]) m'))
        \<or> cs \<in> set (preorder_ss r path m (Suc j) ss)"
      by (insert mem, cases "r \<and> is_module t"; cases v; auto)
    then consider
      (here) "cs = path @ [\<lparr>sc_module = m, sc_i = int j\<rparr>]"
      | (sub) m' where "r \<and> is_module t" "v = Object m'"
          "cs \<in> set (preorder_m r (path @ [\<lparr>sc_module = m, sc_i = int j\<rparr>]) m')"
      | (rest) "cs \<in> set (preorder_ss r path m (Suc j) ss)"
      by blast
    then show "top_in_range cs"
    proof cases
      case here
      then show ?thesis using len by (simp add: top_in_range_def)
    next
      case sub
      then show ?thesis using "3.IH"(1) by blast
    next
      case rest
      then show ?thesis using "3.IH"(2) len by simp
    qed
  qed
qed

lemma length_preorder:
  "length (preorder_m True path0 mm) = sum_list (map numAttributes (containers mm))"
  "length (preorder_ss True path m j ss) = length ss + sum_list (map numAttributes (sub_containers ss))"
proof (induction True path0 mm and True path m j ss rule: preorder_m_preorder_ss.induct)
  case (1 path ss)
  then show ?case by (simp add: numAttributes_def)
next
  case (2 path m j)
  then show ?case by simp
next
  case (3 path m j n t p v ss)
  then show ?case by (auto split: ivalue.splits)
qed

lemma preorder_flat:
  "cs \<in> set (preorder_m False path0 mm) \<longrightarrow> length cs = Suc (length path0)"
  "cs \<in> set (preorder_ss False path m j ss) \<longrightarrow> length cs = Suc (length path)"
  by (induction False path0 mm and False path m j ss rule: preorder_m_preorder_ss.induct) auto

lemma length_preorder_flat:
  "length (preorder_m False path0 mm) = numAttributes mm"
  "length (preorder_ss False path m j ss) = length ss"
  by (induction False path0 mm and False path m j ss rule: preorder_m_preorder_ss.induct)
    (auto simp: numAttributes_def)

section \<open>Structurally valid trees\<close>

lemma wf_containers_aux:
  "wf_m mm \<longrightarrow> list_all wf_m (containers mm)"
  "list_all wf_s ss \<longrightarrow> list_all wf_m (sub_containers ss)"
proof (induction mm and ss rule: containers_sub_containers.induct)
  case (1 ss)
  then show ?case by simp
next
  case 2
  then show ?case by simp
next
  case (3 n t p v ss)
  then show ?case by (cases t; cases v) auto
qed

lemma wf_containers:
  assumes "wf_m root" and "m \<in> set (containers root)"
  shows "wf_m m"
  using wf_containers_aux(1) [of root] assms by (simp add: list_all_iff)

lemma wf_m_slot:
  assumes "wf_m m" and "i < length (slots m)"
  shows "wf_s (slots m ! i)"
  using assms by (cases m) (simp add: list_all_length)

lemma preorder_frames_ok:
  "cs \<in> set (preorder_m r path0 mm) \<longrightarrow> list_all frame_ok path0 \<longrightarrow> wf_m mm \<longrightarrow>
     list_all frame_ok cs \<and> cs \<noteq> []"
  "cs \<in> set (preorder_ss r path m j ss) \<longrightarrow> list_all frame_ok path \<longrightarrow> wf_m m \<longrightarrow>
     drop j (slots m) = ss \<longrightarrow> list_all frame_ok cs \<and> cs \<noteq> []"
proof (induction r path0 mm and r path m j ss rule: preorder_m_preorder_ss.induct)
  case (1 r path ss)
  then show ?case by simp
next
  case (2 r path m j)
  then show ?case by simp
next
  case (3 r path m j n t p v ss)
  show ?case
  proof (intro impI)
    assume mem: "cs \<in> set (preorder_ss r path m j (Slot n t p v # ss))"
      and path: "list_all frame_ok path" and wf: "wf_m m"
      and dr: "drop j (slots m) = Slot n t p v # ss"
    have lt: "j < length (slots m)"
      using dr by (metis drop_all leI list.distinct(1))
    have sj: "slots m ! j = Slot n t p v" and dr': "drop (Suc j) (slots m) = ss"
      using dr lt by (simp_all add: Cons_nth_drop_Suc [symmetric])
    have here: "list_all frame_ok (path @ [\<lparr>sc_module = m, sc_i = int j\<rparr>])"
      using path wf lt by (simp add: frame_ok_def in_range_def numAttributes_def)
    have "cs = path @ [\<lparr>sc_module = m, sc_i = int j\<rparr>]
        \<or> (\<exists>m'. (r \<and> is_module t) \<and> v = Object m'
              \<and> cs \<in> set (preorder_m r (path @ [\<lparr>sc_module = m, sc_i = int j\<rparr>]) m'))
        \<or> cs \<in> set (preorder_ss r path m (Suc j) ss)"
      by (insert mem, cases "r \<and> is_module t"; cases v; auto)
    then consider
      (here) "cs = path @ [\<lparr>sc_module = m, sc_i = int j\<rparr>]"
      | (sub) m' where "r \<and> is_module t" "v = Object m'"
          "cs \<in> set (preorder_m r (path @ [\<lparr>sc_module = m, sc_i = int j\<rparr>]) m')"
      | (rest) "cs \<in> set (preorder_ss r path m (Suc j) ss)"
      by blast
    then show "list_all frame_ok cs \<and> cs \<noteq> []"
    proof cases
      case here
      then show ?thesis using \<open>list_all frame_ok (path @ [\<lparr>sc_module = m, sc_i = int j\<rparr>])\<close>
        by simp
    next
      case sub
      have "wf_s (Slot n t p v)" using wf_m_slot [OF wf lt] sj by simp
      then have "wf_m m'" using sub(1,2) by (cases t) simp_all
      then show ?thesis
        using "3.IH"(1) [OF sub(1,2)] sub(3)
          \<open>list_all frame_ok (path @ [\<lparr>sc_module = m, sc_i = int j\<rparr>])\<close>
        by blast
    next
      case rest
      then show ?thesis using "3.IH"(2) path wf dr' by blast
    qed
  qed
qed

section \<open>Reachable states\<close>

text \<open>
  \<open>reachable\<close> is closed under \<open>next\<close>, and the states that the constructor and
  \<open>operator++\<close> return are reachable. Every reachable state is either the initial
  state at the sentinel or satisfies \<open>stack_inv\<close>; on a structurally valid tree all its
  cursors are in structurally valid containers.
\<close>

lemma advance_first:
  "advance (Suc n) it = Inr it' \<longleftrightarrow> (\<exists>it1. next_it it = Inr it1 \<and> advance n it1 = Inr it')"
  by (auto split: sum.splits)

lemma advance_last:
  "advance (Suc n) it = Inr it' \<longleftrightarrow> (\<exists>it1. advance n it = Inr it1 \<and> next_it it1 = Inr it')"
proof (induction n arbitrary: it)
  case 0
  show ?case by (auto split: sum.splits)
next
  case (Suc n)
  have "advance (Suc (Suc n)) it = Inr it' \<longleftrightarrow>
      (\<exists>it0. next_it it = Inr it0 \<and> advance (Suc n) it0 = Inr it')"
    by (rule advance_first)
  also have "\<dots> \<longleftrightarrow>
      (\<exists>it0 it1. next_it it = Inr it0 \<and> advance n it0 = Inr it1 \<and> next_it it1 = Inr it')"
    using Suc.IH by blast
  also have "\<dots> \<longleftrightarrow> (\<exists>it1. advance (Suc n) it = Inr it1 \<and> next_it it1 = Inr it')"
    using advance_first [of n it] by blast
  finally show ?case .
qed

lemma reachable_start: "reachable r root rm (initial_iterator r root rm)"
  unfolding reachable_def using advance.simps(1) by blast

lemma reachable_advance:
  "advance n (initial_iterator r root rm) = Inr it \<Longrightarrow> reachable r root rm it"
  unfolding reachable_def by blast

lemma reachable_step:
  assumes "reachable r root rm it" and "next_it it = Inr it'"
  shows "reachable r root rm it'"
proof -
  from assms(1) obtain n where "advance n (initial_iterator r root rm) = Inr it"
    unfolding reachable_def by blast
  then have "advance (Suc n) (initial_iterator r root rm) = Inr it'"
    using assms(2) advance_last by blast
  then show ?thesis unfolding reachable_def by blast
qed

lemma reachable_induct [consumes 1, case_names start step]:
  assumes "reachable r root rm it"
    and "Q (initial_iterator r root rm)"
    and "\<And>it it'. reachable r root rm it \<Longrightarrow> Q it \<Longrightarrow> next_it it = Inr it' \<Longrightarrow> Q it'"
  shows "Q it"
proof -
  from assms(1) obtain n where "advance n (initial_iterator r root rm) = Inr it"
    unfolding reachable_def by blast
  then show ?thesis
  proof (induction n arbitrary: it)
    case 0
    then show ?case using assms(2) by simp
  next
    case (Suc n)
    then obtain it1 where a: "advance n (initial_iterator r root rm) = Inr it1"
      and b: "next_it it1 = Inr it"
      using advance_last by blast
    show ?case using assms(3) [OF reachable_advance [OF a] Suc.IH [OF a] b] .
  qed
qed

lemma stack_inv_after_pop:
  assumes "list_all in_range rest"
  shows "stack_inv (after_pop rest)"
proof (cases rest rule: rev_cases)
  case Nil
  then show ?thesis by (simp add: after_pop_def stack_inv_def)
next
  case (snoc rest' p)
  then show ?thesis using assms by (simp add: after_pop_def stack_inv_def in_range_def)
qed

lemma next_it_stack_inv:
  assumes "(rm \<and> it_cursors it = [\<lparr>sc_module = root, sc_i = - 1\<rparr>]) \<or> stack_inv (it_cursors it)"
    and "next_it it = Inr it'"
  shows "stack_inv (it_cursors it')"
  using assms(2)
proof (cases rule: next_it_cases)
  case (sentinel rest c)
  then have "rest = []" using assms(1) by (auto simp: stack_inv_def)
  then show ?thesis using sentinel by (simp add: stack_inv_def)
next
  case (pop rest c)
  then have "list_all in_range rest" using assms(1) by (auto simp: stack_inv_def)
  then show ?thesis using pop stack_inv_after_pop by simp
next
  case (push rest c m)
  then have "list_all in_range rest" using assms(1) by (auto simp: stack_inv_def)
  then show ?thesis using push by (simp add: stack_inv_def butlast_append)
next
  case (inc rest c)
  then have "list_all in_range rest \<and> 0 \<le> sc_i c" using assms(1) by (auto simp: stack_inv_def)
  then show ?thesis using inc by (simp add: stack_inv_def)
qed

lemma reachable_inv:
  assumes "reachable r root rm it"
  shows "it_recurse it = r
     \<and> ((rm \<and> it_cursors it = [\<lparr>sc_module = root, sc_i = - 1\<rparr>]) \<or> stack_inv (it_cursors it))"
  using assms
proof (induction rule: reachable_induct)
  case start
  then show ?case by (simp add: stack_inv_def initial_iterator_def)
next
  case (step it it')
  then show ?case using next_it_recurse next_it_stack_inv by blast
qed

lemma stack_inv_nonneg:
  assumes "stack_inv cs" and "c \<in> set cs"
  shows "0 \<le> sc_i c"
proof (cases cs rule: rev_cases)
  case Nil
  then show ?thesis using assms by simp
next
  case (snoc rest d)
  then show ?thesis using assms by (auto simp: stack_inv_def in_range_def list_all_iff)
qed

lemma stack_inv_inner:
  assumes "stack_inv cs" and "Suc k < length cs"
  shows "in_range (cs ! k)"
proof -
  have "k < length (butlast cs)" using assms(2) by simp
  then have "in_range (butlast cs ! k)"
    using assms(1) by (simp add: stack_inv_def list_all_length)
  then show ?thesis using \<open>k < length (butlast cs)\<close> by (simp add: nth_butlast)
qed

lemma reachable_wf:
  assumes "reachable r root rm it" and "wf_m root"
  shows "list_all (\<lambda>c. wf_m (sc_module c)) (it_cursors it)"
  using assms
proof (induction rule: reachable_induct)
  case start
  then show ?case using assms(2) by (simp add: initial_iterator_def)
next
  case (step it it')
  then have IH: "list_all (\<lambda>c. wf_m (sc_module c)) (it_cursors it)" by simp
  from step.hyps(2) show ?case
  proof (cases rule: next_it_cases)
    case (sentinel rest c)
    then show ?thesis using IH by simp
  next
    case (pop rest c)
    then show ?thesis using IH
      by (cases rest rule: rev_cases) (simp_all add: after_pop_def)
  next
    case (push rest c m)
    then have lt': "sc_i c < int (length (slots (sc_module c)))" and nn: "0 \<le> sc_i c"
      by (simp_all add: in_range_def numAttributes_def)
    then have lt: "nat (sc_i c) < length (slots (sc_module c))" by simp
    have "wf_m (sc_module c)" using IH push by simp
    then have "wf_s (slots (sc_module c) ! nat (sc_i c))" using lt by (rule wf_m_slot)
    moreover obtain n t p v where s: "slots (sc_module c) ! nat (sc_i c) = Slot n t p v"
      by (cases "slots (sc_module c) ! nat (sc_i c)")
    moreover have "t = ModuleType" "v = Object m"
      using push(4,5) s lt' nn by (simp_all add: getAttribute_def getSlot_def slot_at_def)
    ultimately have "wf_m m" by simp
    then show ?thesis using IH push by simp
  next
    case (inc rest c)
    then show ?thesis using IH by simp
  qed
qed

lemma while_not_valid_next_reachable:
  "reachable r root rm it \<Longrightarrow> while_not_valid_next P it = Inr it' \<Longrightarrow> reachable r root rm it'"
proof (induction P it rule: while_not_valid_next.induct)
  case (1 P it)
  show ?case
  proof (cases "it_cursors it \<noteq> [] \<and> \<not> return_module it \<and> valid P it = Inr False")
    case True
    then obtain it1 where n: "next_it it = Inr it1" and w: "while_not_valid_next P it1 = Inr it'"
      using "1.prems"(2) by (subst (asm) while_not_valid_next.simps) (auto split: sum.splits)
    have "reachable r root rm it1" using "1.prems"(1) n by (rule reachable_step)
    then show ?thesis using "1.IH" [of False it1] True n w by simp
  next
    case False
    then have "it' = it"
      using "1.prems"(2)
      by (subst (asm) while_not_valid_next.simps) (auto split: sum.splits if_splits)
    then show ?thesis using "1.prems"(1) by simp
  qed
qed

lemma new_slot_iterator_impl_reachable:
  assumes "new_slot_iterator_impl P root r rm = Inr it"
  shows "reachable r root rm it"
  using assms reachable_start [of r root rm] while_not_valid_next_reachable
  unfolding new_slot_iterator_impl_def by blast

lemma next_valid_reachable:
  assumes "reachable r root rm it" and "next_valid P it = Inr it'"
  shows "reachable r root rm it'"
proof (cases "it_cursors it = []")
  case True
  then show ?thesis using assms by (simp add: next_valid_def)
next
  case False
  then obtain it1 where n: "next_it it = Inr it1" and w: "while_not_valid_next P it1 = Inr it'"
    using assms(2) by (auto simp: next_valid_def split: sum.splits)
  have "reachable r root rm it1" using assms(1) n by (rule reachable_step)
  then show ?thesis using w by (rule while_not_valid_next_reachable)
qed

lemma advance_inside_b:
  "advance 2 (initial_iterator True two_level_module False) = Inr inside_b"
  by code_simp

section \<open>Names and projections\<close>

lemma dot_join_Cons: "dot_join (f # fs) = f @ dotted fs"
  by (induction fs arbitrary: f) (simp_all add: dotted_def)

lemma nameFragment_Inr:
  assumes "nameFragment c = Inr f"
  shows "f = slot_name_at c"
  using assms
  by (auto simp: nameFragment_def getAttributeName_def slot_at_def slot_name_at_def
      split: if_splits)

lemma nameFragment_in_range:
  assumes "in_range c"
  shows "nameFragment c = Inr (slot_name (slots (sc_module c) ! nat (sc_i c)))"
  using assms
  by (simp add: in_range_def nameFragment_def getAttributeName_def slot_at_def
      numAttributes_def)

lemma name_loop_Suc:
  "name_loop cs (Suc i) acc = Inr nm \<Longrightarrow> nm = acc @ dotted (map slot_name_at cs)"
proof (induction cs arbitrary: i acc)
  case Nil
  then show ?case by (simp add: dotted_def)
next
  case (Cons c cs)
  then obtain f where f: "nameFragment c = Inr f"
    and rest: "name_loop cs (Suc (Suc i)) ((acc @ ''.'') @ f) = Inr nm"
    by (auto split: sum.splits)
  from Cons.IH [OF rest] nameFragment_Inr [OF f] show ?case by (simp add: dotted_def)
qed

lemma name_loop_0:
  assumes "name_loop cs 0 acc = Inr nm"
  shows "nm = acc @ dot_join (map slot_name_at cs)"
proof (cases cs)
  case Nil
  then show ?thesis using assms by simp
next
  case (Cons c cs')
  then obtain f where f: "nameFragment c = Inr f"
    and rest: "name_loop cs' (Suc 0) (acc @ f) = Inr nm"
    using assms by (auto split: sum.splits)
  from name_loop_Suc [OF rest] nameFragment_Inr [OF f] Cons show ?thesis
    by (simp add: dot_join_Cons)
qed

lemma name_loop_total:
  assumes "list_all in_range cs"
  shows "\<exists>nm. name_loop cs i acc = Inr nm"
  using assms
  by (induction cs arbitrary: i acc) (simp_all add: nameFragment_in_range)

lemma NamedPolicy_name_path:
  assumes "NamedPolicy_name cs = Inr nm"
  shows "nm = path_name cs"
proof (cases "length cs = 1")
  case True
  then obtain c where c: "cs = [c]" by (cases cs) auto
  then show ?thesis using assms nameFragment_Inr [of c nm]
    by (auto simp: NamedPolicy_name_def path_name_def split: if_splits)
next
  case False
  then show ?thesis using assms name_loop_0 [of cs "[]" nm]
    by (simp add: NamedPolicy_name_def path_name_def)
qed

lemma NamedPolicy_name_total:
  assumes "list_all in_range cs"
  shows "\<exists>nm. NamedPolicy_name cs = Inr nm"
proof (cases "length cs = 1")
  case True
  then obtain c where "cs = [c]" by (cases cs) auto
  then show ?thesis using assms by (simp add: NamedPolicy_name_def nameFragment_in_range)
next
  case False
  then show ?thesis using name_loop_total [OF assms] by (simp add: NamedPolicy_name_def)
qed

lemma NamedPolicy_name_single:
  assumes "length cs = 1" and "top_in_range cs"
  shows "\<exists>nm. NamedPolicy_name cs = Inr nm"
  using assms
  by (auto simp: NamedPolicy_name_def top_in_range_def nameFragment_def getAttributeName_def
      slot_at_def)

lemma deref_NamedPolicy:
  assumes "deref (NamedPolicy P) it = Inr x"
  shows "\<exists>y. deref P it = Inr y \<and> x = Named (path_name (it_cursors it)) y"
  using assms NamedPolicy_name_path [of "it_cursors it"]
  by (auto simp: deref_def split: if_splits sum.splits)

lemma collect_NamedPolicy:
  assumes "collect (NamedPolicy P) r poss = Inr xs"
  shows "\<exists>ys. collect P r poss = Inr ys \<and> xs = map2 Named (map path_name poss) ys"
  using assms
proof (induction poss arbitrary: xs)
  case Nil
  then show ?case by simp
next
  case (Cons cs poss)
  then obtain x xs' where x: "deref (NamedPolicy P) \<lparr>it_cursors = cs, it_recurse = r\<rparr> = Inr x"
    and rest: "collect (NamedPolicy P) r poss = Inr xs'" and xs: "xs = x # xs'"
    by (auto split: sum.splits)
  from deref_NamedPolicy [OF x] obtain y
    where y: "deref P \<lparr>it_cursors = cs, it_recurse = r\<rparr> = Inr y" "x = Named (path_name cs) y"
    by auto
  from Cons.IH [OF rest] obtain ys
    where ys: "collect P r poss = Inr ys" "xs' = map2 Named (map path_name poss) ys"
    by blast
  show ?case using y ys xs by simp
qed

lemma accepted_all_slots:
  assumes "all_slots P" and "top_in_range cs"
  shows "accepted P r cs"
  using assms
  by (induction P) (auto simp: accepted_def top_in_range_def valid_def top_cursor_def
      numAttributes_def getSlot_def slot_at_def)

lemma deref_AttributePolicy:
  assumes "top_in_range cs"
  shows "deref AttributePolicy \<lparr>it_cursors = cs, it_recurse = r\<rparr> =
     Inr (OutIValue (slot_value (slots (sc_module (last cs)) ! nat (sc_i (last cs)))))"
  using assms
  by (auto simp: deref_def top_in_range_def cur_def return_module_def top_cursor_def
      getSlot_def slot_at_def)

lemma collect_AttributePolicy:
  assumes "list_all top_in_range poss"
  shows "\<exists>xs. collect AttributePolicy r poss = Inr xs \<and> length xs = length poss"
  using assms by (induction poss) (auto simp: deref_AttributePolicy)

lemma create_all_slots:
  assumes "all_slots P" and "length cs = 1" and "top_in_range cs"
  shows "\<exists>x. create P cs v = Inr x"
  using assms
proof (induction P)
  case (NamedPolicy P)
  then obtain x nm where "create P cs v = Inr x" "NamedPolicy_name cs = Inr nm"
    using NamedPolicy_name_single [of cs] by auto
  then show ?case by simp
qed simp_all

lemma deref_all_slots:
  assumes "all_slots P" and "length cs = 1" and "top_in_range cs"
  shows "\<exists>x. deref P \<lparr>it_cursors = cs, it_recurse = r\<rparr> = Inr x"
proof -
  have "\<exists>v. cur \<lparr>it_cursors = cs, it_recurse = r\<rparr> = Inr v"
    using assms(3)
    by (auto simp: top_in_range_def cur_def return_module_def top_cursor_def getSlot_def
        slot_at_def)
  then show ?thesis
    using create_all_slots [OF assms] assms(3) by (auto simp: deref_def top_in_range_def)
qed

lemma create_accepted:
  assumes "wf_m m" and "j < length (slots m)"
    and "Policy_valid P m (int j) (slot_value (slots m ! j)) = Inr True"
    and "list_all in_range cs"
  shows "\<exists>x. create P cs (slot_value (slots m ! j)) = Inr x"
  using assms(3)
proof (induction P)
  case ModulePolicy
  obtain n t p v where s: "slots m ! j = Slot n t p v" by (cases "slots m ! j")
  have "wf_s (Slot n t p v)" using wf_m_slot [OF assms(1,2)] s by simp
  moreover have "t = ModuleType"
    using ModulePolicy assms(2) s
    by (auto simp: getAttribute_def slot_at_def elim: is_module.elims)
  ultimately show ?case using s by (cases v) simp_all
next
  case ParameterPolicy
  then have "isTensor (slot_value (slots m ! j))"
    using assms(2) by (simp add: is_parameter_def slot_at_def)
  then show ?case by (cases "slot_value (slots m ! j)") simp_all
next
  case BufferPolicy
  obtain n t p v where s: "slots m ! j = Slot n t p v" by (cases "slots m ! j")
  have "wf_s (Slot n t p v)" using wf_m_slot [OF assms(1,2)] s by simp
  moreover have "t = TensorType"
    using BufferPolicy assms(2) s
    by (auto simp: getAttribute_def slot_at_def split: if_splits
        elim: isSubtypeOf_TensorType.elims)
  ultimately show ?case using s by (cases v) simp_all
next
  case AttributePolicy
  then show ?case by simp
next
  case (NamedPolicy P)
  then obtain x where "create P cs (slot_value (slots m ! j)) = Inr x" by auto
  moreover obtain nm where "NamedPolicy_name cs = Inr nm"
    using NamedPolicy_name_total [OF assms(4)] by blast
  ultimately show ?case by simp
qed

lemma deref_accepted:
  assumes "list_all in_range cs" and "cs \<noteq> []" and "wf_m (sc_module (last cs))"
    and "valid P \<lparr>it_cursors = cs, it_recurse = r\<rparr> = Inr True"
  shows "\<exists>v x. cur \<lparr>it_cursors = cs, it_recurse = r\<rparr> = Inr v \<and> create P cs v = Inr x
     \<and> deref P \<lparr>it_cursors = cs, it_recurse = r\<rparr> = Inr x"
proof -
  let ?c = "last cs"
  let ?j = "nat (sc_i ?c)"
  have rng: "in_range ?c" using assms(1,2) by (simp add: list_all_iff)
  then have j: "?j < length (slots (sc_module ?c))" and ij: "int ?j = sc_i ?c"
    by (auto simp: in_range_def numAttributes_def)
  have cur: "cur \<lparr>it_cursors = cs, it_recurse = r\<rparr> = Inr (slot_value (slots (sc_module ?c) ! ?j))"
    using rng
    by (simp add: cur_def return_module_def top_cursor_def getSlot_def slot_at_def
        in_range_def numAttributes_def)
  have "Policy_valid P (sc_module ?c) (int ?j) (slot_value (slots (sc_module ?c) ! ?j)) = Inr True"
    using assms(4) rng
    by (simp add: valid_def top_cursor_def getSlot_def slot_at_def in_range_def
        numAttributes_def)
  from create_accepted [OF assms(3) j this assms(1)] obtain x
    where "create P cs (slot_value (slots (sc_module ?c) ! ?j)) = Inr x" by blast
  then show ?thesis using cur assms(2) by (simp add: deref_def)
qed

lemma create_sentinel:
  assumes "takes_object P"
  shows "\<exists>x. create P [\<lparr>sc_module = root, sc_i = - 1\<rparr>] (Object root) = Inr x"
  using assms by (induction P) (auto simp: NamedPolicy_name_def)

lemma deref_sentinel:
  assumes "takes_object P"
  shows "\<exists>x. deref P \<lparr>it_cursors = [\<lparr>sc_module = root, sc_i = - 1\<rparr>], it_recurse = r\<rparr> = Inr x"
  using create_sentinel [OF assms, of root]
  by (simp add: deref_def cur_def return_module_def top_cursor_def)

lemma collect_yield_positions:
  assumes "wf_m root" and "rm \<longrightarrow> takes_object P"
  shows "\<exists>xs. collect P r (yield_positions P r rm root) = Inr xs"
proof -
  have "list_all (\<lambda>cs. \<exists>x. deref P \<lparr>it_cursors = cs, it_recurse = r\<rparr> = Inr x)
      (yield_positions P r rm root)"
    unfolding list_all_iff
  proof
    fix cs assume "cs \<in> set (yield_positions P r rm root)"
    then consider (root) "rm" "cs = [\<lparr>sc_module = root, sc_i = - 1\<rparr>]"
      | (slot) "cs \<in> set (preorder_m r [] root)" "accepted P r cs"
      by (auto simp: yield_positions_def split: if_splits)
    then show "\<exists>x. deref P \<lparr>it_cursors = cs, it_recurse = r\<rparr> = Inr x"
    proof cases
      case root
      then show ?thesis using deref_sentinel assms(2) by simp
    next
      case slot
      then have ok: "list_all frame_ok cs" and ne: "cs \<noteq> []"
        using preorder_frames_ok(1) [of cs r "[]" root] assms(1) by simp_all
      then have "list_all in_range cs" and "wf_m (sc_module (last cs))"
        by (simp_all add: list_all_iff frame_ok_def)
      then show ?thesis
        using deref_accepted [of cs P r] ne slot(2) by (auto simp: accepted_def)
    qed
  qed
  then show ?thesis using collect_total by blast
qed

lemma deref_sentinel_ModulePolicy:
  "deref ModulePolicy \<lparr>it_cursors = [\<lparr>sc_module = root, sc_i = - 1\<rparr>], it_recurse = r\<rparr> =
     Inr (OutModule root)"
  by (simp add: deref_def cur_def return_module_def top_cursor_def)

lemma deref_sentinel_NamedPolicy_ModulePolicy:
  "deref (NamedPolicy ModulePolicy)
     \<lparr>it_cursors = [\<lparr>sc_module = root, sc_i = - 1\<rparr>], it_recurse = r\<rparr> =
     Inr (Named [] (OutModule root))"
  by (simp add: deref_def cur_def return_module_def top_cursor_def NamedPolicy_name_def)

lemma elements_empty_module:
  "elements P (new_slot_list_impl P (Module []) r False) = Inr []"
  using elements_preorder [of r "Module []" P False] by (simp add: yield_positions_def)

lemma modules_empty_module:
  "elements ModulePolicy (new_slot_list_impl ModulePolicy (Module []) r True) =
     Inr [OutModule (Module [])]"
  using elements_preorder [of r "Module []" ModulePolicy True]
  by (simp add: yield_positions_def deref_sentinel_ModulePolicy)

lemma named_modules_empty_module:
  "elements (NamedPolicy ModulePolicy)
     (new_slot_list_impl (NamedPolicy ModulePolicy) (Module []) r True) =
     Inr [Named [] (OutModule (Module []))]"
  using elements_preorder [of r "Module []" "NamedPolicy ModulePolicy" True]
  by (simp add: yield_positions_def deref_sentinel_NamedPolicy_ModulePolicy)

section \<open>The size of a view\<close>

lemma size_loop_to_list:
  "(to_list P it = Inr xs \<longrightarrow> size_loop P it n = (None, n + length xs))
   \<and> (to_list P it = Inl e \<longrightarrow> fst (size_loop P it n) = Some e)"
proof (induction P it arbitrary: xs n rule: to_list.induct)
  case (1 P it)
  show ?case
  proof (cases "operator_neq it end_iterator")
    case False
    then show ?thesis
      by (subst to_list.simps, subst (1 2) size_loop.simps, subst to_list.simps) auto
  next
    case True
    show ?thesis
    proof (cases "deref P it")
      case (Inl e')
      then show ?thesis using True
        by (subst to_list.simps, subst (1 2) size_loop.simps, subst to_list.simps) auto
    next
      case (Inr x)
      show ?thesis
      proof (cases "next_valid P it")
        case (Inl e')
        then show ?thesis using True Inr
          by (subst to_list.simps, subst (1 2) size_loop.simps, subst to_list.simps) auto
      next
        case (Inr it')
        have tl: "to_list P it =
            (case to_list P it' of Inl e \<Rightarrow> Inl e | Inr ys \<Rightarrow> Inr (x # ys))"
          using True \<open>deref P it = Inr x\<close> Inr by (subst to_list.simps) simp
        have sl: "size_loop P it n = size_loop P it' (Suc n)"
          using True \<open>deref P it = Inr x\<close> Inr by (subst size_loop.simps) simp
        from "1.IH" [OF True \<open>deref P it = Inr x\<close> Inr, of _ "Suc n"]
        show ?thesis unfolding tl sl by (auto split: sum.splits)
      qed
    qed
  qed
qed

lemma view_size_uncached:
  assumes "sl_size l = None"
  shows "fst (view_size P l) = count_elements P l"
proof (cases "begin_it P l")
  case (Inl e)
  then show ?thesis using assms
    by (simp add: view_size_def count_elements_def elements_def)
next
  case (Inr it)
  show ?thesis
  proof (cases "to_list P it")
    case (Inl e)
    then have "fst (size_loop P it 0) = Some e" using size_loop_to_list [of P it] by blast
    then show ?thesis using assms Inl \<open>begin_it P l = Inr it\<close>
      by (cases "size_loop P it 0")
        (simp add: view_size_def count_elements_def elements_def)
  next
    case (Inr xs)
    then have "size_loop P it 0 = (None, length xs)"
      using size_loop_to_list [of P it xs 0] by simp
    then show ?thesis using assms Inr \<open>begin_it P l = Inr it\<close>
      by (simp add: view_size_def count_elements_def elements_def)
  qed
qed

lemma count_elements_fast_path:
  assumes "all_slots P"
  shows "count_elements P (new_slot_list_impl P m False False) = Inr (num_slots m)"
proof -
  let ?poss = "preorder_m False [] m"
  have range: "list_all top_in_range ?poss"
    using preorder_top_in_range(1) [of _ False "[]" m] by (simp add: list_all_iff)
  have single: "list_all (\<lambda>cs. length cs = 1) ?poss"
    using preorder_flat(1) [of _ "[]" m] by (simp add: list_all_iff)
  have keep: "filter (accepted P False) ?poss = ?poss"
    using range assms by (simp add: list_all_iff accepted_all_slots)
  have "list_all (\<lambda>cs. \<exists>x. deref P \<lparr>it_cursors = cs, it_recurse = False\<rparr> = Inr x) ?poss"
    using range single deref_all_slots [OF assms] by (simp add: list_all_iff)
  then obtain xs where "collect P False ?poss = Inr xs" "length xs = length ?poss"
    using collect_total by blast
  moreover have "elements P (new_slot_list_impl P m False False) = collect P False ?poss"
    using elements_preorder [of False m P False] keep by (simp add: yield_positions_def)
  ultimately show ?thesis
    using length_preorder_flat(1) [of "[]" m]
    by (simp add: count_elements_def num_slots_def numAttributes_def)
qed

lemma view_size_new:
  "fst (view_size P (new_slot_list_impl P m r rm)) =
     count_elements P (new_slot_list_impl P m r rm)"
proof (cases "\<not> r \<and> \<not> rm \<and> all_slots P")
  case True
  then have "fst (view_size P (new_slot_list_impl P m r rm)) = Inr (num_slots m)"
    by (simp add: view_size_def new_slot_list_impl_def)
  then show ?thesis using True count_elements_fast_path [of P m] by simp
next
  case False
  then have "sl_size (new_slot_list_impl P m r rm) = None"
    by (auto simp: new_slot_list_impl_def)
  then show ?thesis by (rule view_size_uncached)
qed

lemma elements_sl_size [simp]: "elements P (l\<lparr>sl_size := c\<rparr>) = elements P l"
  by (simp add: elements_def begin_it_def)

lemma count_elements_sl_size [simp]: "count_elements P (l\<lparr>sl_size := c\<rparr>) = count_elements P l"
  by (simp add: count_elements_def)

lemma view_size_state:
  "\<exists>c. snd (view_size P l) = l\<lparr>sl_size := c\<rparr>"
proof (cases "sl_size l")
  case None
  then show ?thesis
    by (auto simp: view_size_def split: sum.splits prod.splits option.splits)
next
  case (Some n)
  then have "snd (view_size P l) = l\<lparr>sl_size := Some n\<rparr>" by (simp add: view_size_def)
  then show ?thesis by blast
qed

lemma view_size_cached:
  assumes "count_elements P l = Inr n" and "sl_size l = None \<or> sl_size l = Some n"
  shows "fst (view_size P l) = Inr n \<and> sl_size (snd (view_size P l)) = Some n"
proof (cases "sl_size l")
  case (Some a)
  then show ?thesis using assms by (simp add: view_size_def)
next
  case None
  from assms(1) obtain it xs where b: "begin_it P l = Inr it" and t: "to_list P it = Inr xs"
    and n: "n = length xs"
    by (auto simp: count_elements_def elements_def split: sum.splits)
  have "size_loop P it 0 = (None, n)" using size_loop_to_list [of P it xs 0] t n by simp
  then show ?thesis using None b by (simp add: view_size_def)
qed

lemma size_calls_cached:
  assumes "count_elements P l = Inr n" and "sl_size l = None \<or> sl_size l = Some n"
  shows "fst (view_size P (size_calls k P l)) = Inr n"
  using assms
proof (induction k arbitrary: l)
  case 0
  then show ?case using view_size_cached by simp
next
  case (Suc k)
  obtain c where c: "snd (view_size P l) = l\<lparr>sl_size := c\<rparr>" using view_size_state by blast
  have "sl_size (snd (view_size P l)) = Some n" using view_size_cached [OF Suc.prems] by simp
  moreover have "count_elements P (snd (view_size P l)) = Inr n" using c Suc.prems(1) by simp
  ultimately show ?case using Suc.IH by simp
qed

section \<open>Views and iterators in client programs\<close>

text \<open>
  A loop writes its own iterator variable only, and what it yields depends only on the
  iterators in its two variables; with the end iterator in \<open>e\<close> it yields what
  \<open>to_list\<close> collects. Every statement but the assignment of a view leaves the root
  and the two flags of a view as they were, and a statement leaves the iterators in the
  variables it does not write as they were.
\<close>

lemma for_loop_frame:
  "for_loop P b e st = Inr (xs, st') \<Longrightarrow>
     st_views st' = st_views st \<and> (\<forall>c. c \<noteq> b \<longrightarrow> get_iter st' c = get_iter st c)"
proof (induction P b e st arbitrary: xs st' rule: for_loop.induct)
  case (1 P b e st)
  from "1.prems" obtain it en where b: "get_iter st b = Some it" and e: "get_iter st e = Some en"
    by (subst (asm) for_loop.simps) (auto split: option.splits)
  show ?case
  proof (cases "operator_neq it en")
    case False
    then have "st' = st" using "1.prems" b e
      by (subst (asm) for_loop.simps) simp
    then show ?thesis by simp
  next
    case True
    from "1.prems" b e True obtain x it' ys where d: "deref P it = Inr x"
      and n: "next_valid P it = Inr it'"
      and r: "for_loop P b e (set_iter b it' st) = Inr (ys, st')"
      by (subst (asm) for_loop.simps) (auto split: sum.splits)
    have "st_views st' = st_views (set_iter b it' st)
        \<and> (\<forall>c. c \<noteq> b \<longrightarrow> get_iter st' c = get_iter (set_iter b it' st) c)"
      using "1.IH" [OF b e True d n r] .
    then show ?thesis by (auto simp: set_iter_def get_iter_def)
  qed
qed

lemma for_loop_to_list:
  "get_iter st b = Some it \<Longrightarrow> get_iter st e = Some en \<Longrightarrow> it_cursors en = [] \<Longrightarrow> b \<noteq> e \<Longrightarrow>
    (case for_loop P b e st of Inl err \<Rightarrow> Inl err | Inr (xs, st') \<Rightarrow> Inr xs) =
    (case to_list P it of Inl err \<Rightarrow> Inl (EngineError err) | Inr xs \<Rightarrow> Inr xs)"
proof (induction P b e st arbitrary: it rule: for_loop.induct)
  case (1 P b e st)
  have neq: "operator_neq it en = operator_neq it end_iterator"
    using "1.prems"(3) by (simp add: operator_neq_def end_iterator_def)
  show ?case
  proof (cases "operator_neq it en")
    case False
    then show ?thesis using "1.prems" neq
      by (subst for_loop.simps, subst to_list.simps) simp
  next
    case True
    show ?thesis
    proof (cases "deref P it")
      case (Inl err)
      then show ?thesis using "1.prems" neq True
        by (subst for_loop.simps, subst to_list.simps) simp
    next
      case d: (Inr x)
      show ?thesis
      proof (cases "next_valid P it")
        case (Inl err)
        then show ?thesis using "1.prems" neq True d
          by (subst for_loop.simps, subst to_list.simps) simp
      next
        case n: (Inr it')
        have b': "get_iter (set_iter b it' st) b = Some it'" by simp
        have e': "get_iter (set_iter b it' st) e = Some en" using "1.prems"(2,4) by auto
        have IH: "(case for_loop P b e (set_iter b it' st) of Inl err \<Rightarrow> Inl err
                   | Inr (xs, st') \<Rightarrow> Inr xs) =
                  (case to_list P it' of Inl err \<Rightarrow> Inl (EngineError err) | Inr xs \<Rightarrow> Inr xs)"
          using "1.IH" [OF "1.prems"(1) "1.prems"(2) True d n b' e' "1.prems"(3) "1.prems"(4)] .
        have L: "for_loop P b e st =
            (case for_loop P b e (set_iter b it' st) of Inl err \<Rightarrow> Inl err
             | Inr (xs, st') \<Rightarrow> Inr (x # xs, st'))"
          using "1.prems" True d n by (subst for_loop.simps) simp
        have R: "to_list P it =
            (case to_list P it' of Inl err \<Rightarrow> Inl err | Inr xs \<Rightarrow> Inr (x # xs))"
          using neq True d n by (subst to_list.simps) simp
        show ?thesis using IH unfolding L R
          by (auto split: sum.splits prod.splits)
      qed
    qed
  qed
qed

lemma for_loop_cong:
  "get_iter st b = get_iter st2 b \<Longrightarrow> get_iter st e = get_iter st2 e \<Longrightarrow>
    (case for_loop P b e st of Inl err \<Rightarrow> Inl err | Inr (xs, st') \<Rightarrow> Inr xs) =
    (case for_loop P b e st2 of Inl err \<Rightarrow> Inl err | Inr (xs, st') \<Rightarrow> Inr xs)"
proof (induction P b e st arbitrary: st2 rule: for_loop.induct)
  case (1 P b e st)
  note sb = "1.prems"(1) [symmetric] and se = "1.prems"(2) [symmetric]
  show ?case
  proof (cases "get_iter st b")
    case None
    have "for_loop P b e st = Inl UnboundVariable" using None
      by (subst for_loop.simps) simp
    moreover have "for_loop P b e st2 = Inl UnboundVariable" using None sb
      by (subst for_loop.simps) simp
    ultimately show ?thesis by simp
  next
    case b: (Some it)
    show ?thesis
    proof (cases "get_iter st e")
      case None
      have "for_loop P b e st = Inl UnboundVariable" using None b
        by (subst for_loop.simps) simp
      moreover have "for_loop P b e st2 = Inl UnboundVariable" using None b sb se
        by (subst for_loop.simps) simp
      ultimately show ?thesis by simp
    next
      case e: (Some en)
      show ?thesis
      proof (cases "operator_neq it en")
        case False
        have "for_loop P b e st = Inr ([], st)" using False b e
          by (subst for_loop.simps) simp
        moreover have "for_loop P b e st2 = Inr ([], st2)" using False b e sb se
          by (subst for_loop.simps) simp
        ultimately show ?thesis by simp
      next
        case True
        show ?thesis
        proof (cases "deref P it")
          case (Inl err)
          have "for_loop P b e st = Inl (EngineError err)" using Inl True b e
            by (subst for_loop.simps) simp
          moreover have "for_loop P b e st2 = Inl (EngineError err)" using Inl True b e sb se
            by (subst for_loop.simps) simp
          ultimately show ?thesis by simp
        next
          case d: (Inr x)
          show ?thesis
          proof (cases "next_valid P it")
            case (Inl err)
            have "for_loop P b e st = Inl (EngineError err)" using Inl d True b e
              by (subst for_loop.simps) simp
            moreover have "for_loop P b e st2 = Inl (EngineError err)"
              using Inl d True b e sb se by (subst for_loop.simps) simp
            ultimately show ?thesis by simp
          next
            case n: (Inr it')
            have b': "get_iter (set_iter b it' st) b = get_iter (set_iter b it' st2) b" by simp
            have e': "get_iter (set_iter b it' st) e = get_iter (set_iter b it' st2) e"
              using "1.prems"(2) by simp
            have IH: "(case for_loop P b e (set_iter b it' st) of Inl err \<Rightarrow> Inl err
                       | Inr (xs, st') \<Rightarrow> Inr xs) =
                      (case for_loop P b e (set_iter b it' st2) of Inl err \<Rightarrow> Inl err
                       | Inr (xs, st') \<Rightarrow> Inr xs)"
              using "1.IH" [OF b e True d n b' e'] .
            have L: "for_loop P b e st =
                (case for_loop P b e (set_iter b it' st) of Inl err \<Rightarrow> Inl err
                 | Inr (xs, st') \<Rightarrow> Inr (x # xs, st'))"
              using b e True d n by (subst for_loop.simps) simp
            have R: "for_loop P b e st2 =
                (case for_loop P b e (set_iter b it' st2) of Inl err \<Rightarrow> Inl err
                 | Inr (xs, st') \<Rightarrow> Inr (x # xs, st'))"
              using sb se b e True d n by (subst for_loop.simps) simp
            show ?thesis using IH unfolding L R
              by (auto split: sum.splits prod.splits)
          qed
        qed
      qed
    qed
  qed
qed

lemma exec_view_fields:
  assumes "exec P c st = Inr (ob, st')" and "\<not> assigns_view a c" and "get_view st a = Some l"
  shows "\<exists>cache. get_view st' a = Some (l\<lparr>sl_size := cache\<rparr>)"
proof -
  have same: "get_view st' a = Some l \<Longrightarrow> ?thesis"
  proof -
    assume "get_view st' a = Some l"
    then have "get_view st' a = Some (l\<lparr>sl_size := sl_size l\<rparr>)" by simp
    then show ?thesis by blast
  qed
  show ?thesis
  proof (cases c)
    case (NewView a' m r rm)
    then show ?thesis using assms same by auto
  next
    case (Begin a' b)
    then show ?thesis using assms same by (auto split: option.splits sum.splits)
  next
    case (End a' b)
    then show ?thesis using assms same by (auto split: option.splits sum.splits)
  next
    case (Copy c' b)
    then show ?thesis using assms same by (auto split: option.splits sum.splits)
  next
    case (Incr b)
    then show ?thesis using assms same by (auto split: option.splits sum.splits)
  next
    case (PostIncr b c')
    then show ?thesis using assms same by (auto split: option.splits sum.splits)
  next
    case (Deref b)
    then show ?thesis using assms same by (auto split: option.splits sum.splits)
  next
    case (Size a')
    show ?thesis
    proof (cases "a' = a")
      case False
      then show ?thesis using Size assms same
        by (auto split: option.splits sum.splits prod.splits)
    next
      case True
      obtain cache where c: "snd (view_size P l) = l\<lparr>sl_size := cache\<rparr>"
        using view_size_state by blast
      have "get_view st' a = Some (snd (view_size P l))"
        using Size True assms by (auto split: option.splits sum.splits prod.splits)
      then show ?thesis using c by auto
    qed
  next
    case (Loop b e)
    then obtain xs where "for_loop P b e st = Inr (xs, st')"
      using assms by (auto split: sum.splits)
    then have "st_views st' = st_views st" using for_loop_frame by blast
    then show ?thesis using assms same by (simp add: get_view_def)
  qed
qed

lemma run_view_fields:
  "run P cs st = Inr (obs, st') \<Longrightarrow> list_all (\<lambda>c. \<not> assigns_view a c) cs \<Longrightarrow>
   get_view st a = Some l \<Longrightarrow> \<exists>cache. get_view st' a = Some (l\<lparr>sl_size := cache\<rparr>)"
proof (induction cs arbitrary: st obs l)
  case Nil
  then have "get_view st' a = Some (l\<lparr>sl_size := sl_size l\<rparr>)" by simp
  then show ?case by blast
next
  case (Cons c cs)
  from Cons.prems(1) obtain ob st1 obs1 where e: "exec P c st = Inr (ob, st1)"
    and r: "run P cs st1 = Inr (obs1, st')"
    by (auto split: sum.splits)
  from exec_view_fields [OF e _ Cons.prems(3)] Cons.prems(2)
  obtain c1 where v1: "get_view st1 a = Some (l\<lparr>sl_size := c1\<rparr>)" by auto
  from Cons.IH [OF r _ v1] Cons.prems(2)
  obtain c2 where "get_view st' a = Some (l\<lparr>sl_size := c1\<rparr>\<lparr>sl_size := c2\<rparr>)" by auto
  then have "get_view st' a = Some (l\<lparr>sl_size := c2\<rparr>)" by simp
  then show ?case by blast
qed

lemma exec_iter_frame:
  assumes "exec P c st = Inr (ob, st')" and "\<not> writes_iter b c"
  shows "get_iter st' b = get_iter st b"
proof (cases c)
  case (Loop b' e)
  then obtain xs where "for_loop P b' e st = Inr (xs, st')"
    using assms by (auto split: sum.splits)
  then show ?thesis using for_loop_frame [of P b' e st xs st'] assms Loop by simp
qed (use assms in \<open>auto split: option.splits sum.splits prod.splits\<close>)

lemma run_iter_frame:
  "run P cs st = Inr (obs, st') \<Longrightarrow> list_all (\<lambda>c. \<not> writes_iter b c) cs \<Longrightarrow>
   get_iter st' b = get_iter st b"
proof (induction cs arbitrary: st obs)
  case Nil
  then show ?case by simp
next
  case (Cons c cs)
  from Cons.prems(1) obtain ob st1 obs1 where e: "exec P c st = Inr (ob, st1)"
    and r: "run P cs st1 = Inr (obs1, st')"
    by (auto split: sum.splits)
  have "get_iter st1 b = get_iter st b" using exec_iter_frame [OF e] Cons.prems(2) by simp
  moreover have "get_iter st' b = get_iter st1 b" using Cons.IH [OF r] Cons.prems(2) by simp
  ultimately show ?case by simp
qed

lemma run_append:
  "run P (cs @ ds) st =
     (case run P cs st of
        Inl err \<Rightarrow> Inl err
      | Inr (obs1, st1) \<Rightarrow>
          (case run P ds st1 of
             Inl err \<Rightarrow> Inl err
           | Inr (obs2, st2) \<Rightarrow> Inr (obs1 @ obs2, st2)))"
  by (induction cs arbitrary: st) (auto split: sum.splits prod.splits)

lemma range_for_run:
  assumes "b \<noteq> e" and "get_view st a = Some l"
  shows "observe P (range_for a b e) st =
     (case elements P l of
        Inl err \<Rightarrow> Inl (EngineError err)
      | Inr xs \<Rightarrow> Inr [NoValue, NoValue, Elements xs])"
proof (cases "begin_it P l")
  case (Inl err)
  then show ?thesis using assms
    by (simp add: observe_def range_for_def elements_def)
next
  case (Inr it)
  let ?st2 = "set_iter e (end_it P l) (set_iter b it st)"
  have b: "get_iter ?st2 b = Some it" using assms by simp
  have e: "get_iter ?st2 e = Some (end_it P l)" by simp
  have "(case for_loop P b e ?st2 of Inl err \<Rightarrow> Inl err | Inr (xs, st') \<Rightarrow> Inr xs) =
    (case to_list P it of Inl err \<Rightarrow> Inl (EngineError err) | Inr xs \<Rightarrow> Inr xs)"
    using for_loop_to_list [OF b e _ assms(1)] by (simp add: end_it_def end_iterator_def)
  then show ?thesis using assms Inr
    by (auto simp: observe_def range_for_def elements_def split: sum.splits prod.splits)
qed

lemma range_for_view:
  assumes "run P (range_for a b e) st = Inr (obs, st')"
  shows "\<exists>l. get_view st a = Some l \<and> get_view st' a = Some l"
proof -
  from assms obtain l it xs where l: "get_view st a = Some l"
    and f: "for_loop P b e (set_iter e (end_it P l) (set_iter b it st)) = Inr (xs, st')"
    by (auto simp: range_for_def split: option.splits sum.splits prod.splits)
  have "st_views st' = st_views st" using for_loop_frame [OF f] by (simp add: set_iter_def)
  then show ?thesis using l by (simp add: get_view_def)
qed

text \<open>
  The conditions are needed: a loop whose begin and end iterators share one variable
  yields nothing, a new view assigned to the variable is iterated in place of the old
  one, and advancing the iterator of a loop changes what the loop yields.
\<close>

lemma range_for_same_variable:
  "observe (NamedPolicy AttributePolicy) (range_for 0 1 1) client_store =
     Inr [NoValue, NoValue, Elements []]"
  by code_simp

lemma range_for_after_assignment:
  "observe (NamedPolicy AttributePolicy)
     (range_for 0 1 2 @ [NewView 0 inner_module True False] @ range_for 0 1 2) client_store =
   Inr [NoValue, NoValue,
        Elements [Named ''a'' (OutIValue (Tensor 1)),
                  Named ''b'' (OutIValue (Object inner_module)),
                  Named ''b.c'' (OutIValue (Tensor 2))],
        NoValue, NoValue, NoValue,
        Elements [Named ''c'' (OutIValue (Tensor 2))]]"
  by code_simp

lemma loop_after_write:
  "observe (NamedPolicy AttributePolicy) ([Incr 1] @ [Loop 1 2]) client_store =
   Inr [NoValue, Elements [Named ''b.c'' (OutIValue (Tensor 2))]]"
  by code_simp

section \<open>The properties of the specification\<close>

text \<open>
  C1: on a freshly constructed view, for every policy, recurse flag and include_root
  flag, \<open>size()\<close> returns what counting the elements of an exhaustive iteration
  returns (the same number, or the same failure when the iteration fails). This covers
  the fast path of the constructor (all_slots, non-recursive, root excluded), where the
  size is the root's slot count. When the iteration yields \<open>n\<close> elements, \<open>size()\<close>
  still returns \<open>n\<close> after any number of earlier \<open>size()\<close> calls on the same view,
  which read the cached value.
\<close>

theorem C1_size_agrees_with_iteration:
  "fst (view_size P (new_slot_list_impl P m r rm)) =
     count_elements P (new_slot_list_impl P m r rm)
   \<and> (all_slots P \<and> \<not> r \<and> \<not> rm \<longrightarrow>
        fst (view_size P (new_slot_list_impl P m r rm)) = Inr (num_slots m))
   \<and> (count_elements P (new_slot_list_impl P m r rm) = Inr n \<longrightarrow>
        fst (view_size P (size_calls k P (new_slot_list_impl P m r rm))) = Inr n)"
proof (intro conjI impI)
  show "fst (view_size P (new_slot_list_impl P m r rm)) =
      count_elements P (new_slot_list_impl P m r rm)"
    by (rule view_size_new)
next
  assume "all_slots P \<and> \<not> r \<and> \<not> rm"
  then show "fst (view_size P (new_slot_list_impl P m r rm)) = Inr (num_slots m)"
    using view_size_new [of P m r rm] count_elements_fast_path [of P m] by simp
next
  assume n: "count_elements P (new_slot_list_impl P m r rm) = Inr n"
  have "sl_size (new_slot_list_impl P m r rm) = None
      \<or> sl_size (new_slot_list_impl P m r rm) = Some n"
  proof (cases "\<not> r \<and> \<not> rm \<and> all_slots P")
    case True
    then show ?thesis
      using n count_elements_fast_path [of P m] by (simp add: new_slot_list_impl_def)
  next
    case False
    then show ?thesis by (auto simp: new_slot_list_impl_def)
  qed
  then show "fst (view_size P (size_calls k P (new_slot_list_impl P m r rm))) = Inr n"
    using size_calls_cached [OF n] by simp
qed

theorem C1_size_agrees_with_iteration_witness:
  "all_slots AttributePolicy
   \<and> count_elements AttributePolicy (new_slot_list_impl AttributePolicy two_level_module False False)
       = Inr 2
   \<and> fst (view_size AttributePolicy (new_slot_list_impl AttributePolicy two_level_module False False))
       = Inr 2
   \<and> fst (view_size AttributePolicy
        (size_calls 3 AttributePolicy
          (new_slot_list_impl AttributePolicy two_level_module False False))) = Inr 2
   \<and> count_elements ParameterPolicy (new_slot_list_impl ParameterPolicy two_level_module True False)
       = Inr 1
   \<and> fst (view_size ParameterPolicy (new_slot_list_impl ParameterPolicy two_level_module True False))
       = Inr 1"
proof -
  have n: "num_slots two_level_module = 2"
    by (simp add: num_slots_def two_level_module_def)
  let ?l = "new_slot_list_impl AttributePolicy two_level_module False False"
  note c1 = C1_size_agrees_with_iteration [of AttributePolicy two_level_module False False 2 3]
  have a: "fst (view_size AttributePolicy ?l) = count_elements AttributePolicy ?l"
    using c1 by blast
  have b: "fst (view_size AttributePolicy ?l) = Inr 2"
    using c1 [THEN conjunct2, THEN conjunct1] n by simp
  have c: "count_elements AttributePolicy ?l = Inr 2"
    using a b by simp
  have d: "fst (view_size AttributePolicy (size_calls 3 AttributePolicy ?l)) = Inr 2"
    using c1 c by blast
  let ?p = "new_slot_list_impl ParameterPolicy two_level_module True False"
  have e: "count_elements ParameterPolicy ?p = Inr 1"
    by code_simp
  have f: "fst (view_size ParameterPolicy ?p) = Inr 1"
    using C1_size_agrees_with_iteration [of ParameterPolicy two_level_module True False 1 0] e
    by simp
  show ?thesis using b c d e f by simp
qed

text \<open>
  C2: in a structurally valid tree, for every slot of every container reachable from
  the root: a slot whose declared type is a tensor type is accepted by exactly one of
  ParameterPolicy and BufferPolicy; ModulePolicy accepts the slot exactly when its
  declared type is a module type; and no two of the three policies accept the same slot.
\<close>

theorem C2_policy_partition:
  assumes "wf_m root" and "m \<in> set (containers root)" and "i < numAttributes m"
  shows "(isSubtypeOf_TensorType (slot_type (slots m ! i)) \<longrightarrow>
            accepts ParameterPolicy m i \<noteq> accepts BufferPolicy m i)
         \<and> accepts ModulePolicy m i = is_module (slot_type (slots m ! i))
         \<and> \<not> (accepts ParameterPolicy m i \<and> accepts BufferPolicy m i)
         \<and> \<not> (accepts ParameterPolicy m i \<and> accepts ModulePolicy m i)
         \<and> \<not> (accepts BufferPolicy m i \<and> accepts ModulePolicy m i)"
proof -
  have lt: "i < length (slots m)" using assms(3) by (simp add: numAttributes_def)
  have "wf_m m" using assms(1,2) by (rule wf_containers)
  then have wf: "wf_s (slots m ! i)" using lt by (rule wf_m_slot)
  obtain n t p v where s: "slots m ! i = Slot n t p v" by (cases "slots m ! i")
  have pp: "accepts ParameterPolicy m i = (p \<and> isTensor v)"
    using lt s by (simp add: accepts_def is_parameter_def slot_at_def)
  have bp: "accepts BufferPolicy m i = (isSubtypeOf_TensorType t \<and> \<not> p)"
    using lt s by (simp add: accepts_def is_parameter_def getAttribute_def slot_at_def)
  have mp: "accepts ModulePolicy m i = is_module t"
    using lt s by (simp add: accepts_def getAttribute_def slot_at_def)
  show ?thesis
    using wf unfolding pp bp mp s by (cases t; cases v) simp_all
qed

theorem C2_policy_partition_witness:
  "wf_m two_level_module
   \<and> Module [Slot ''c'' TensorType False (Tensor 2)] \<in> set (containers two_level_module)
   \<and> 0 < numAttributes (Module [Slot ''c'' TensorType False (Tensor 2)])
   \<and> accepts BufferPolicy (Module [Slot ''c'' TensorType False (Tensor 2)]) 0
   \<and> \<not> accepts ParameterPolicy (Module [Slot ''c'' TensorType False (Tensor 2)]) 0
   \<and> \<not> accepts ModulePolicy (Module [Slot ''c'' TensorType False (Tensor 2)]) 0"
proof -
  let ?m = "Module [Slot ''c'' TensorType False (Tensor 2)]"
  have wf: "wf_m two_level_module" by (simp add: two_level_module_def)
  have mem: "?m \<in> set (containers two_level_module)" by (simp add: two_level_module_def)
  have lt: "0 < numAttributes ?m" by (simp add: numAttributes_def)
  have b: "accepts BufferPolicy ?m 0"
    by (simp add: accepts_def is_parameter_def getAttribute_def slot_at_def)
  show ?thesis
    using C2_policy_partition [OF wf mem lt] wf mem lt b by simp
qed

text \<open>
  C3: for a structurally valid tree, iterating the AttributePolicy view with
  recurse = true and include_root = false succeeds and yields exactly as many elements
  as the slot counts of the containers reachable from the root (the root included) add
  up to.
\<close>

theorem C3_attribute_completeness:
  assumes "wf_m root"
  shows "count_elements AttributePolicy (new_slot_list_impl AttributePolicy root True False) =
     Inr (total_slots root)"
proof -
  let ?poss = "preorder_m True [] root"
  have range: "list_all top_in_range ?poss"
    using preorder_top_in_range(1) [of _ True "[]" root] by (simp add: list_all_iff)
  then have "filter (accepted AttributePolicy True) ?poss = ?poss"
    by (simp add: list_all_iff accepted_all_slots)
  then have "elements AttributePolicy (new_slot_list_impl AttributePolicy root True False) =
      collect AttributePolicy True ?poss"
    using elements_preorder [of True root AttributePolicy False] assms
    by (simp add: yield_positions_def)
  moreover obtain xs where "collect AttributePolicy True ?poss = Inr xs" "length xs = length ?poss"
    using collect_AttributePolicy [OF range] by blast
  ultimately show ?thesis
    by (simp add: count_elements_def total_slots_def length_preorder(1))
qed

theorem C3_attribute_completeness_witness:
  "wf_m two_level_module \<and>
   count_elements AttributePolicy (new_slot_list_impl AttributePolicy two_level_module True False) =
     Inr 3"
proof -
  have wf: "wf_m two_level_module" by (simp add: two_level_module_def)
  have "total_slots two_level_module = 3"
    by (simp add: total_slots_def two_level_module_def numAttributes_def)
  then show ?thesis using C3_attribute_completeness [OF wf] wf by simp
qed

text \<open>
  C4 as stated: two iterators compare unequal unless both are terminal. The comparison
  only looks at whether each stack is empty, so two iterators that are both non-terminal
  compare equal. Here both are the iterator \<open>parameters(recurse = false).begin()\<close> of a
  module with one parameter slot.
\<close>

theorem C4_counterexample:
  "new_slot_iterator_impl ParameterPolicy one_slot_module False False = Inr at_first_slot
   \<and> it_cursors at_first_slot \<noteq> []
   \<and> \<not> operator_neq at_first_slot at_first_slot"
proof -
  have "valid ParameterPolicy at_first_slot = Inr True"
    by (simp add: valid_def at_first_slot_def top_cursor_def numAttributes_def
        one_slot_module_def getSlot_def slot_at_def is_parameter_def)
  then have "while_not_valid_next ParameterPolicy at_first_slot = Inr at_first_slot"
    by (simp add: while_not_valid_next_stop)
  then show ?thesis
    by (simp add: new_slot_iterator_impl_def initial_iterator_def at_first_slot_def
        operator_neq_def)
qed

text \<open>
  C4, amended: \<open>operator!=\<close> returns true exactly when one of the two iterators is in
  the terminal empty-stack state and the other is not. Two terminal iterators compare
  equal, and so do two non-terminal iterators, whatever their positions.
\<close>

theorem C4_operator_neq:
  "operator_neq a b =
     ((it_cursors a = [] \<and> it_cursors b \<noteq> []) \<or> (it_cursors a \<noteq> [] \<and> it_cursors b = []))"
  by (auto simp: operator_neq_def)

text \<open>
  C5: advancing an iterator that is already terminal returns it unchanged, without an
  error; it still compares equal to the end iterator and unequal to every non-terminal
  iterator.
\<close>

theorem C5_terminal_advance:
  assumes "it_cursors it = []" and "it_cursors b \<noteq> []"
  shows "next_valid P it = Inr it \<and> \<not> operator_neq it end_iterator \<and> operator_neq it b"
  using assms by (simp add: next_valid_def operator_neq_def end_iterator_def)

theorem C5_terminal_advance_witness:
  "it_cursors end_iterator = [] \<and> it_cursors at_first_slot \<noteq> []
   \<and> next_valid ModulePolicy end_iterator = Inr end_iterator
   \<and> \<not> operator_neq end_iterator end_iterator
   \<and> operator_neq end_iterator at_first_slot"
proof -
  have a: "it_cursors end_iterator = []" by (simp add: end_iterator_def)
  have b: "it_cursors at_first_slot \<noteq> []" by (simp add: at_first_slot_def)
  show ?thesis using C5_terminal_advance [OF a b, of ModulePolicy] a b by simp
qed

text \<open>
  C6 as stated: a container with zero slots yields an empty sequence from every view,
  for every include_root value, and \<open>size()\<close> is 0. The view \<open>modules()\<close>
  (ModulePolicy, recurse = true, include_root = true) of such a container yields the
  container itself, and its size is 1.
\<close>

theorem C6_counterexample:
  "elements ModulePolicy (new_slot_list_impl ModulePolicy (Module []) True True) =
     Inr [OutModule (Module [])]
   \<and> fst (view_size ModulePolicy (new_slot_list_impl ModulePolicy (Module []) True True)) = Inr 1"
proof -
  have "elements ModulePolicy (new_slot_list_impl ModulePolicy (Module []) True True) =
      Inr [OutModule (Module [])]"
    by (rule modules_empty_module)
  then show ?thesis
    using view_size_new [of ModulePolicy "Module []" True True]
    by (simp add: count_elements_def)
qed

text \<open>
  C6, amended: for a container with zero slots, every view with include_root = false
  (children, parameters, buffers, attributes and their named variants, for either
  recurse value) yields the empty sequence and \<open>size()\<close> returns 0. The views with
  include_root = true, \<open>modules()\<close> and \<open>named_modules()\<close>, yield exactly one
  element, the container itself (under the empty name), and \<open>size()\<close> returns 1.
\<close>

theorem C6_empty_container:
  "elements P (new_slot_list_impl P (Module []) r False) = Inr []
   \<and> fst (view_size P (new_slot_list_impl P (Module []) r False)) = Inr 0
   \<and> elements ModulePolicy (new_slot_list_impl ModulePolicy (Module []) r True) =
       Inr [OutModule (Module [])]
   \<and> fst (view_size ModulePolicy (new_slot_list_impl ModulePolicy (Module []) r True)) = Inr 1
   \<and> elements (NamedPolicy ModulePolicy)
         (new_slot_list_impl (NamedPolicy ModulePolicy) (Module []) r True) =
       Inr [Named [] (OutModule (Module []))]
   \<and> fst (view_size (NamedPolicy ModulePolicy)
         (new_slot_list_impl (NamedPolicy ModulePolicy) (Module []) r True)) = Inr 1"
  using view_size_new [of P "Module []" r False]
    view_size_new [of ModulePolicy "Module []" r True]
    view_size_new [of "NamedPolicy ModulePolicy" "Module []" r True]
  by (simp add: count_elements_def elements_empty_module modules_empty_module
      named_modules_empty_module)

text \<open>
  C7: whenever \<open>NamedPolicy::create\<close> produces a name for a stack, it is the dot-joined
  concatenation of the slot names of the stack's frames from the root to the current
  position, and the empty string for the stack of one sentinel frame. So the elements a
  named view yields are the elements the underlying view yields, each paired with that
  name of its position, listed in pre-order; on a structurally valid tree the named view
  does yield them.
\<close>

theorem C7_named_path:
  assumes "r \<longrightarrow> wf_m root"
  shows "(\<forall>cs nm. NamedPolicy_name cs = Inr nm \<longrightarrow> nm = path_name cs)
     \<and> NamedPolicy_name [\<lparr>sc_module = m, sc_i = - 1\<rparr>] = Inr []
     \<and> (\<forall>xs. elements (NamedPolicy P) (new_slot_list_impl (NamedPolicy P) root r rm) = Inr xs \<longrightarrow>
          (\<exists>ys. elements P (new_slot_list_impl P root r rm) = Inr ys
             \<and> length ys = length (yield_positions P r rm root)
             \<and> xs = map2 Named (map path_name (yield_positions P r rm root)) ys))
     \<and> (wf_m root \<and> (rm \<longrightarrow> takes_object P) \<longrightarrow>
          (\<exists>xs. elements (NamedPolicy P) (new_slot_list_impl (NamedPolicy P) root r rm) = Inr xs))"
proof (intro conjI allI impI)
  fix cs nm assume "NamedPolicy_name cs = Inr nm"
  then show "nm = path_name cs" by (rule NamedPolicy_name_path)
next
  show "NamedPolicy_name [\<lparr>sc_module = m, sc_i = - 1\<rparr>] = Inr []"
    by (simp add: NamedPolicy_name_def)
next
  fix xs
  assume "elements (NamedPolicy P) (new_slot_list_impl (NamedPolicy P) root r rm) = Inr xs"
  then have "collect (NamedPolicy P) r (yield_positions P r rm root) = Inr xs"
    using elements_preorder [OF assms, of "NamedPolicy P" rm]
    by (simp add: yield_positions_NamedPolicy)
  then obtain ys where ys: "collect P r (yield_positions P r rm root) = Inr ys"
    "xs = map2 Named (map path_name (yield_positions P r rm root)) ys"
    using collect_NamedPolicy by blast
  then show "\<exists>ys. elements P (new_slot_list_impl P root r rm) = Inr ys
      \<and> length ys = length (yield_positions P r rm root)
      \<and> xs = map2 Named (map path_name (yield_positions P r rm root)) ys"
    using elements_preorder [OF assms, of P rm] collect_length by auto
next
  assume a: "wf_m root \<and> (rm \<longrightarrow> takes_object P)"
  then have "rm \<longrightarrow> takes_object (NamedPolicy P)" by simp
  then obtain xs where
    "collect (NamedPolicy P) r (yield_positions (NamedPolicy P) r rm root) = Inr xs"
    using collect_yield_positions [of root rm "NamedPolicy P" r] a by blast
  then show "\<exists>xs. elements (NamedPolicy P) (new_slot_list_impl (NamedPolicy P) root r rm) = Inr xs"
    using elements_preorder [OF assms, of "NamedPolicy P" rm] by simp
qed

theorem C7_named_path_witness:
  "wf_m two_level_module
   \<and> elements (NamedPolicy AttributePolicy)
         (new_slot_list_impl (NamedPolicy AttributePolicy) two_level_module True False) =
       Inr [Named ''a'' (OutIValue (Tensor 1)),
            Named ''b'' (OutIValue (Object (Module [Slot ''c'' TensorType False (Tensor 2)]))),
            Named ''b.c'' (OutIValue (Tensor 2))]
   \<and> map path_name (yield_positions AttributePolicy True False two_level_module) =
       [''a'', ''b'', ''b.c'']
   \<and> (\<exists>ys. elements AttributePolicy (new_slot_list_impl AttributePolicy two_level_module True False)
             = Inr ys
          \<and> [Named ''a'' (OutIValue (Tensor 1)),
              Named ''b'' (OutIValue (Object (Module [Slot ''c'' TensorType False (Tensor 2)]))),
              Named ''b.c'' (OutIValue (Tensor 2))] =
             map2 Named [''a'', ''b'', ''b.c''] ys)"
proof -
  have wf: "wf_m two_level_module" by (simp add: two_level_module_def)
  have el: "elements (NamedPolicy AttributePolicy)
         (new_slot_list_impl (NamedPolicy AttributePolicy) two_level_module True False) =
       Inr [Named ''a'' (OutIValue (Tensor 1)),
            Named ''b'' (OutIValue (Object (Module [Slot ''c'' TensorType False (Tensor 2)]))),
            Named ''b.c'' (OutIValue (Tensor 2))]"
    by code_simp
  have nm: "map path_name (yield_positions AttributePolicy True False two_level_module) =
       [''a'', ''b'', ''b.c'']"
    by code_simp
  have hyp: "True \<longrightarrow> wf_m two_level_module" using wf by simp
  from C7_named_path [OF hyp, of _ AttributePolicy False] el nm wf show ?thesis by metis
qed

text \<open>
  C8: a client program that iterates the same view object twice, with a range-based
  \<open>for\<close> loop each time, observes the same element sequence both times: equal length,
  equal elements, the same order. This holds from any store, through any iterator
  variables (the second loop may reuse those of the first), and whatever statements run
  between the two loops (\<open>size()\<close> calls, further iterations of this or another view,
  advancing, copying or dereferencing iterators, constructing other views), as long as
  none assigns a new view to the variable; the sequence is the one \<open>elements\<close> gives for
  the view. The iterators are independent: statements that do not write the iterator
  variables \<open>b\<close> and \<open>e\<close>, among them complete iterations of the same view through
  other variables, do not change what the loop from \<open>b\<close> to \<open>e\<close> yields.
\<close>

theorem C8_restartable:
  assumes "b \<noteq> e" and "b' \<noteq> e'"
  shows "(observe P (range_for a b e @ mid @ range_for a b' e') st = Inr obs
            \<and> list_all (\<lambda>c. \<not> assigns_view a c) mid
          \<longrightarrow> (\<exists>l xs. get_view st a = Some l \<and> elements P l = Inr xs
                 \<and> obs ! 2 = Elements xs \<and> last obs = Elements xs))
       \<and> (observe P (other @ [Loop b e]) st = Inr obs'
            \<and> list_all (\<lambda>c. \<not> writes_iter b c \<and> \<not> writes_iter e c) other
          \<longrightarrow> observe P [Loop b e] st = Inr [last obs'])"
proof (intro conjI impI)
  assume h: "observe P (range_for a b e @ mid @ range_for a b' e') st = Inr obs
      \<and> list_all (\<lambda>c. \<not> assigns_view a c) mid"
  then obtain o1 st1 o2 st2 o3 st3 where
      r1: "run P (range_for a b e) st = Inr (o1, st1)"
    and r2: "run P mid st1 = Inr (o2, st2)"
    and r3: "run P (range_for a b' e') st2 = Inr (o3, st3)"
    and obs: "obs = o1 @ o2 @ o3"
    by (auto simp: observe_def run_append split: sum.splits prod.splits)
  from range_for_view [OF r1] obtain l where l: "get_view st a = Some l"
    and l1: "get_view st1 a = Some l" by blast
  from run_view_fields [OF r2 _ l1] h obtain cache where
    l2: "get_view st2 a = Some (l\<lparr>sl_size := cache\<rparr>)" by blast
  have ob1: "observe P (range_for a b e) st = Inr o1" using r1 by (simp add: observe_def)
  have ob3: "observe P (range_for a b' e') st2 = Inr o3" using r3 by (simp add: observe_def)
  from ob1 range_for_run [OF assms(1) l, of P] obtain xs where
    el: "elements P l = Inr xs" and o1: "o1 = [NoValue, NoValue, Elements xs]"
    by (auto split: sum.splits)
  from ob3 range_for_run [OF assms(2) l2, of P] el
  have o3: "o3 = [NoValue, NoValue, Elements xs]" by simp
  show "\<exists>l xs. get_view st a = Some l \<and> elements P l = Inr xs
           \<and> obs ! 2 = Elements xs \<and> last obs = Elements xs"
    using l el obs o1 o3 by simp
next
  assume h: "observe P (other @ [Loop b e]) st = Inr obs'
      \<and> list_all (\<lambda>c. \<not> writes_iter b c \<and> \<not> writes_iter e c) other"
  then obtain o1 st1 xs st2 where r1: "run P other st = Inr (o1, st1)"
    and f: "for_loop P b e st1 = Inr (xs, st2)" and obs: "obs' = o1 @ [Elements xs]"
    by (auto simp: observe_def run_append split: sum.splits prod.splits)
  from h have fb: "get_iter st1 b = get_iter st b"
    using run_iter_frame [OF r1, of b] by (simp add: list_all_iff)
  from h have fe: "get_iter st1 e = get_iter st e"
    using run_iter_frame [OF r1, of e] by (simp add: list_all_iff)
  show "observe P [Loop b e] st = Inr [last obs']"
    using for_loop_cong [OF fb fe, of P] f obs
    by (auto simp: observe_def split: sum.splits prod.splits)
qed

theorem C8_restartable_witness:
  "(1::nat) \<noteq> 2
   \<and> observe (NamedPolicy AttributePolicy)
       (range_for 0 1 2 @ [Size 0, Begin 0 3, Incr 3, Deref 3, Size 0] @ range_for 0 1 2)
       client_store =
     Inr [NoValue, NoValue,
          Elements [Named ''a'' (OutIValue (Tensor 1)),
                    Named ''b'' (OutIValue (Object inner_module)),
                    Named ''b.c'' (OutIValue (Tensor 2))],
          Count 3, NoValue, NoValue, Element (Named ''b'' (OutIValue (Object inner_module))),
          Count 3, NoValue, NoValue,
          Elements [Named ''a'' (OutIValue (Tensor 1)),
                    Named ''b'' (OutIValue (Object inner_module)),
                    Named ''b.c'' (OutIValue (Tensor 2))]]
   \<and> list_all (\<lambda>c. \<not> assigns_view 0 c) [Size 0, Begin 0 3, Incr 3, Deref 3, Size 0]
   \<and> (\<exists>l. get_view client_store 0 = Some l
        \<and> elements (NamedPolicy AttributePolicy) l =
            Inr [Named ''a'' (OutIValue (Tensor 1)),
                 Named ''b'' (OutIValue (Object inner_module)),
                 Named ''b.c'' (OutIValue (Tensor 2))])
   \<and> observe (NamedPolicy AttributePolicy) (range_for 0 3 4 @ [Incr 3] @ [Loop 1 2])
       client_store =
     Inr [NoValue, NoValue,
          Elements [Named ''a'' (OutIValue (Tensor 1)),
                    Named ''b'' (OutIValue (Object inner_module)),
                    Named ''b.c'' (OutIValue (Tensor 2))],
          NoValue,
          Elements [Named ''b'' (OutIValue (Object inner_module)),
                    Named ''b.c'' (OutIValue (Tensor 2))]]
   \<and> list_all (\<lambda>c. \<not> writes_iter 1 c \<and> \<not> writes_iter 2 c) (range_for 0 3 4 @ [Incr 3])
   \<and> observe (NamedPolicy AttributePolicy) [Loop 1 2] client_store =
     Inr [Elements [Named ''b'' (OutIValue (Object inner_module)),
                    Named ''b.c'' (OutIValue (Tensor 2))]]"
proof -
  let ?P = "NamedPolicy AttributePolicy"
  let ?mid = "[Size 0, Begin 0 3, Incr 3, Deref 3, Size 0]"
  let ?other = "range_for 0 3 4 @ [Incr 3]"
  let ?abc = "[Named ''a'' (OutIValue (Tensor 1)),
               Named ''b'' (OutIValue (Object inner_module)),
               Named ''b.c'' (OutIValue (Tensor 2))]"
  let ?bc = "[Named ''b'' (OutIValue (Object inner_module)),
              Named ''b.c'' (OutIValue (Tensor 2))]"
  let ?obs = "[NoValue, NoValue, Elements ?abc,
          Count 3, NoValue, NoValue, Element (Named ''b'' (OutIValue (Object inner_module))),
          Count 3, NoValue, NoValue, Elements ?abc]"
  let ?obs2 = "[NoValue, NoValue, Elements ?abc, NoValue, Elements ?bc]"
  have ne: "(1::nat) \<noteq> 2" by simp
  have run1: "observe ?P (range_for 0 1 2 @ ?mid @ range_for 0 1 2) client_store = Inr ?obs"
    by code_simp
  have keep: "list_all (\<lambda>c. \<not> assigns_view 0 c) ?mid" by simp
  have run2: "observe ?P (?other @ [Loop 1 2]) client_store = Inr ?obs2"
    by code_simp
  have frame: "list_all (\<lambda>c. \<not> writes_iter 1 c \<and> \<not> writes_iter 2 c) ?other"
    by (simp add: range_for_def)
  note inst = C8_restartable [OF ne ne, of "?P" 0 "?mid" client_store "?obs" "?other" "?obs2"]
  from inst run1 keep obtain l xs where l: "get_view client_store 0 = Some l"
    and el: "elements ?P l = Inr xs" and "last ?obs = Elements xs"
    by blast
  then have part1: "\<exists>l. get_view client_store 0 = Some l \<and> elements ?P l = Inr ?abc"
    by auto
  from inst run2 frame have part2: "observe ?P [Loop 1 2] client_store = Inr [last ?obs2]"
    by blast
  show ?thesis using ne run1 keep part1 run2 frame part2 by simp
qed

text \<open>
  C9: in every state an iterator reaches from its construction by any number of
  advances: the stack is empty exactly when the iterator compares equal to the end
  iterator; a cursor with index -1 occurs only as the single cursor of the initial state
  of a view that includes the root, and never after an advance; every cursor below the
  top indexes an existing slot of its container; the top cursor's index is at most its
  container's slot count, and when it equals the slot count the next advance pops that
  cursor, while a position accepted by \<open>valid\<close> always indexes an existing slot.
\<close>

theorem C9_stack_invariant:
  assumes "advance n (initial_iterator r root rm) = Inr it"
  shows "(it_cursors it = []) = (\<not> operator_neq it end_iterator)
     \<and> (\<forall>k < length (it_cursors it). sc_i (it_cursors it ! k) = - 1 \<longrightarrow>
          k = 0 \<and> rm \<and> it_cursors it = [\<lparr>sc_module = root, sc_i = - 1\<rparr>])
     \<and> (\<forall>it'. next_it it = Inr it' \<longrightarrow> (\<forall>c \<in> set (it_cursors it'). sc_i c \<noteq> - 1))
     \<and> (\<forall>k. Suc k < length (it_cursors it) \<longrightarrow> in_range (it_cursors it ! k))
     \<and> (it_cursors it \<noteq> [] \<longrightarrow>
          sc_i (last (it_cursors it)) \<le> int (numAttributes (sc_module (last (it_cursors it)))))
     \<and> (it_cursors it \<noteq> [] \<longrightarrow>
          sc_i (last (it_cursors it)) = int (numAttributes (sc_module (last (it_cursors it)))) \<longrightarrow>
          next_it it = Inr (it\<lparr>it_cursors := after_pop (butlast (it_cursors it))\<rparr>))
     \<and> (it_cursors it \<noteq> [] \<longrightarrow> valid P it = Inr True \<longrightarrow>
          sc_i (last (it_cursors it)) < int (numAttributes (sc_module (last (it_cursors it)))))"
proof -
  let ?cs = "it_cursors it"
  from reachable_inv [OF reachable_advance [OF assms]] have alt:
    "(rm \<and> ?cs = [\<lparr>sc_module = root, sc_i = - 1\<rparr>]) \<or> stack_inv ?cs"
    by simp
  have c1: "(?cs = []) = (\<not> operator_neq it end_iterator)"
    by (simp add: operator_neq_def end_iterator_def)
  have c2: "\<forall>k < length ?cs. sc_i (?cs ! k) = - 1 \<longrightarrow>
      k = 0 \<and> rm \<and> ?cs = [\<lparr>sc_module = root, sc_i = - 1\<rparr>]"
  proof (intro allI impI)
    fix k assume k: "k < length ?cs" and neg: "sc_i (?cs ! k) = - 1"
    have "\<not> stack_inv ?cs"
      using stack_inv_nonneg [of ?cs "?cs ! k"] k neg by auto
    then show "k = 0 \<and> rm \<and> ?cs = [\<lparr>sc_module = root, sc_i = - 1\<rparr>]"
      using alt k by auto
  qed
  have c3: "\<forall>it'. next_it it = Inr it' \<longrightarrow> (\<forall>c \<in> set (it_cursors it'). sc_i c \<noteq> - 1)"
  proof (intro allI impI ballI)
    fix it' c assume "next_it it = Inr it'" and c: "c \<in> set (it_cursors it')"
    then have "stack_inv (it_cursors it')" using next_it_stack_inv [OF alt] by simp
    then show "sc_i c \<noteq> - 1" using stack_inv_nonneg [of "it_cursors it'" c] c by auto
  qed
  have c4: "\<forall>k. Suc k < length ?cs \<longrightarrow> in_range (?cs ! k)"
    using alt stack_inv_inner by auto
  have c5: "?cs \<noteq> [] \<longrightarrow> sc_i (last ?cs) \<le> int (numAttributes (sc_module (last ?cs)))"
    using alt by (auto simp: stack_inv_def)
  show ?thesis
    using c1 c2 c3 c4 c5 next_it_at_end [of it] valid_top_below [of P it] by blast
qed

theorem C9_stack_invariant_witness:
  "advance 2 (initial_iterator True two_level_module False) = Inr inside_b
   \<and> it_cursors inside_b \<noteq> []
   \<and> operator_neq inside_b end_iterator
   \<and> in_range (it_cursors inside_b ! 0)
   \<and> sc_i (last (it_cursors inside_b)) \<le> int (numAttributes (sc_module (last (it_cursors inside_b))))"
proof -
  have ne: "it_cursors inside_b \<noteq> []" and len: "Suc 0 < length (it_cursors inside_b)"
    by (simp_all add: inside_b_def)
  show ?thesis
    using C9_stack_invariant [OF advance_inside_b, of ParameterPolicy] advance_inside_b ne len
    by blast
qed

text \<open>
  C10: on a structurally valid tree, whenever a policy's \<open>valid\<close> accepts a slot of a
  container of the tree, the policy's \<open>create\<close> receives a value it can project: the
  failure branch of \<open>toTensor\<close> (and of \<open>toObject\<close> for ModulePolicy) is not taken.
  This holds slot by slot (for a named policy, with any stack whose cursors index
  existing slots, so that the name exists), and at every position an iterator can reach,
  where dereferencing succeeds.
\<close>

theorem C10_valid_implies_create:
  assumes "wf_m root"
  shows "(m \<in> set (containers root) \<and> i < numAttributes m \<and> accepts P m i
            \<and> list_all in_range cs \<longrightarrow>
          (\<exists>x. create P cs (slot_value (slots m ! i)) = Inr x))
     \<and> (advance n (initial_iterator r root rm) = Inr it \<and> it_cursors it \<noteq> []
            \<and> \<not> return_module it \<and> valid P it = Inr True \<longrightarrow>
          (\<exists>v x. cur it = Inr v \<and> create P (it_cursors it) v = Inr x \<and> deref P it = Inr x))"
proof (intro conjI impI)
  assume a: "m \<in> set (containers root) \<and> i < numAttributes m \<and> accepts P m i
      \<and> list_all in_range cs"
  then have "wf_m m" using assms wf_containers by blast
  moreover have "i < length (slots m)" using a by (simp add: numAttributes_def)
  moreover have "Policy_valid P m (int i) (slot_value (slots m ! i)) = Inr True"
    using a by (simp add: accepts_def)
  ultimately show "\<exists>x. create P cs (slot_value (slots m ! i)) = Inr x"
    using a create_accepted by blast
next
  assume a: "advance n (initial_iterator r root rm) = Inr it \<and> it_cursors it \<noteq> []
      \<and> \<not> return_module it \<and> valid P it = Inr True"
  let ?cs = "it_cursors it"
  have ne: "?cs \<noteq> []" and v: "valid P it = Inr True" using a by simp_all
  have reach: "reachable r root rm it" using a reachable_advance by blast
  have rec: "it_recurse it = r" and alt:
    "(rm \<and> ?cs = [\<lparr>sc_module = root, sc_i = - 1\<rparr>]) \<or> stack_inv ?cs"
    using reachable_inv [OF reach] by simp_all
  have "\<not> (rm \<and> ?cs = [\<lparr>sc_module = root, sc_i = - 1\<rparr>])"
    using a by (auto simp: return_module_def top_cursor_def)
  then have inv: "stack_inv ?cs" using alt by blast
  have top: "in_range (last ?cs)"
    using inv ne valid_top_below [OF v] by (simp add: stack_inv_def in_range_def)
  have "list_all in_range (butlast ?cs @ [last ?cs])"
    using inv top by (simp add: stack_inv_def)
  then have all: "list_all in_range ?cs" using ne by simp
  have wf: "wf_m (sc_module (last ?cs))"
    using reachable_wf [OF reach assms] ne by (simp add: list_all_iff)
  have it: "it = \<lparr>it_cursors = ?cs, it_recurse = r\<rparr>" using rec by simp
  show "\<exists>v x. cur it = Inr v \<and> create P (it_cursors it) v = Inr x \<and> deref P it = Inr x"
    using deref_accepted [OF all ne wf, of P r] v it by metis
qed

theorem C10_valid_implies_create_witness:
  "wf_m two_level_module
   \<and> inner_module \<in> set (containers two_level_module)
   \<and> 0 < numAttributes inner_module
   \<and> accepts (NamedPolicy BufferPolicy) inner_module 0
   \<and> list_all in_range (it_cursors inside_b)
   \<and> create (NamedPolicy BufferPolicy) (it_cursors inside_b) (slot_value (slots inner_module ! 0))
       = Inr (Named ''b.c'' (OutTensor 2))
   \<and> advance 2 (initial_iterator True two_level_module False) = Inr inside_b
   \<and> it_cursors inside_b \<noteq> []
   \<and> \<not> return_module inside_b
   \<and> valid BufferPolicy inside_b = Inr True
   \<and> deref BufferPolicy inside_b = Inr (OutTensor 2)"
proof -
  have wf: "wf_m two_level_module" by (simp add: two_level_module_def)
  have mem: "inner_module \<in> set (containers two_level_module)"
    by (simp add: two_level_module_def inner_module_def)
  have lt: "0 < numAttributes inner_module" by (simp add: numAttributes_def inner_module_def)
  have acc: "accepts (NamedPolicy BufferPolicy) inner_module 0"
    by (simp add: accepts_def inner_module_def getAttribute_def is_parameter_def slot_at_def)
  have rng: "list_all in_range (it_cursors inside_b)"
    by (simp add: inside_b_def in_range_def numAttributes_def two_level_module_def
        inner_module_def)
  have cr: "create (NamedPolicy BufferPolicy) (it_cursors inside_b)
      (slot_value (slots inner_module ! 0)) = Inr (Named ''b.c'' (OutTensor 2))"
    by code_simp
  have ne: "it_cursors inside_b \<noteq> []" by (simp add: inside_b_def)
  have nr: "\<not> return_module inside_b"
    by (simp add: inside_b_def return_module_def top_cursor_def)
  have v: "valid BufferPolicy inside_b = Inr True"
    by (simp add: inside_b_def valid_def top_cursor_def numAttributes_def inner_module_def
        getSlot_def slot_at_def getAttribute_def is_parameter_def)
  have c: "cur inside_b = Inr (Tensor 2)"
    by (simp add: inside_b_def cur_def return_module_def top_cursor_def inner_module_def
        getSlot_def slot_at_def)
  have "\<exists>x. create (NamedPolicy BufferPolicy) (it_cursors inside_b)
      (slot_value (slots inner_module ! 0)) = Inr x"
    using C10_valid_implies_create [OF wf, where m = inner_module and i = 0
        and P = "NamedPolicy BufferPolicy" and cs = "it_cursors inside_b"]
      mem lt acc rng
    by blast
  have "\<exists>v x. cur inside_b = Inr v \<and> create BufferPolicy (it_cursors inside_b) v = Inr x
      \<and> deref BufferPolicy inside_b = Inr x"
    using C10_valid_implies_create [OF wf, where n = 2 and r = True and rm = False
        and it = inside_b and P = BufferPolicy]
      advance_inside_b ne nr v
    by blast
  then have "deref BufferPolicy inside_b = Inr (OutTensor 2)" using c by auto
  then show ?thesis using wf mem lt acc rng cr advance_inside_b ne nr v by simp
qed

end
